theory Spec2Isabelle
  imports Main
begin

section \<open>Python strings\<close>

text \<open>
  The relay (\<^verbatim>\<open>src/fastapi_server.py\<close>) works on Python \<^verbatim>\<open>str\<close> values, which are
  sequences of Unicode code points. They are modelled as \<^typ>\<open>string\<close>, a list of
  characters, each character standing for one code point, which \<open>code_point\<close> gives:
  the codes 0 to 127 are the ASCII code points; the code 128 is U+01F0, a lowercase
  letter whose uppercase form is the two code points U+004A U+030C; the code 129 is
  U+030C, a combining mark, which is no letter, no digit and no blank; the codes 130 to
  255 are the code points U+E082 to U+E0FF of the private use area, which have no case
  and are no letters, no digits and no blanks. The character classes below are Python's
  \<^verbatim>\<open>str.isspace\<close>, \<^verbatim>\<open>isalpha\<close>, \<^verbatim>\<open>isalnum\<close>, \<^verbatim>\<open>isupper\<close>, \<^verbatim>\<open>lower\<close> and \<^verbatim>\<open>upper\<close> on these 256
  code points. A text with any other code point is outside the model; \<open>ascii\<close> holds of
  the characters that stand for the ASCII code points.
\<close>

definition code_point :: "char \<Rightarrow> nat" where
  "code_point c =
     (let n = (of_char c :: nat) in
      if n < 128 then n else if n = 128 then 0x1F0 else if n = 129 then 0x30C else 0xE000 + n)"

definition ascii :: "char \<Rightarrow> bool" where
  "ascii c = ((of_char c :: nat) < 128)"

definition isspace :: "char \<Rightarrow> bool" where
  \<comment> \<open>Python counts TAB, LF, VT, FF, CR, the separators 0x1c to 0x1f and the blank.\<close>
  "isspace c = (let n = (of_char c :: nat) in (9 \<le> n \<and> n \<le> 13) \<or> (28 \<le> n \<and> n \<le> 32))"

definition isupper :: "char \<Rightarrow> bool" where
  "isupper c = (let n = (of_char c :: nat) in 65 \<le> n \<and> n \<le> 90)"

definition islower :: "char \<Rightarrow> bool" where
  \<comment> \<open>the ASCII lowercase letters and U+01F0\<close>
  "islower c = (let n = (of_char c :: nat) in (97 \<le> n \<and> n \<le> 122) \<or> n = 128)"

definition isdigit :: "char \<Rightarrow> bool" where
  "isdigit c = (let n = (of_char c :: nat) in 48 \<le> n \<and> n \<le> 57)"

definition isalpha :: "char \<Rightarrow> bool" where
  "isalpha c = (isupper c \<or> islower c)"

definition isalnum :: "char \<Rightarrow> bool" where
  "isalnum c = (isalpha c \<or> isdigit c)"

definition lower_char :: "char \<Rightarrow> char" where
  "lower_char c = (if isupper c then char_of (of_char c + (32 :: nat)) else c)"

definition upper_char :: "char \<Rightarrow> string" where
  \<comment> \<open>\<^verbatim>\<open>c.upper()\<close> on a text of one character: the result of U+01F0 has two\<close>
  "upper_char c =
     (let n = (of_char c :: nat) in
      if 97 \<le> n \<and> n \<le> 122 then [char_of (n - 32)]
      else if n = 128 then [CHR ''J'', CHR 0x81]
      else [c])"

definition lower :: "string \<Rightarrow> string" where
  "lower s = map lower_char s"

definition lstrip :: "string \<Rightarrow> string" where
  "lstrip s = dropWhile isspace s"

definition rstrip :: "string \<Rightarrow> string" where
  "rstrip s = rev (dropWhile isspace (rev s))"

definition strip :: "string \<Rightarrow> string" where
  "strip s = rstrip (lstrip s)"

definition rstrip_chars :: "string \<Rightarrow> string \<Rightarrow> string" where
  \<comment> \<open>\<^verbatim>\<open>s.rstrip(chars)\<close>\<close>
  "rstrip_chars chars s = rev (dropWhile (\<lambda>c. c \<in> set chars) (rev s))"

definition startswith :: "string \<Rightarrow> string \<Rightarrow> bool" where
  "startswith s p = (take (length p) s = p)"

definition endswith :: "string \<Rightarrow> string \<Rightarrow> bool" where
  "endswith s p = (length p \<le> length s \<and> drop (length s - length p) s = p)"

fun contains :: "string \<Rightarrow> string \<Rightarrow> bool" where
  \<comment> \<open>\<^verbatim>\<open>p in s\<close> on two strings: \<open>p\<close> occurs in \<open>s\<close> as a substring.\<close>
  "contains [] p = (p = [])"
| "contains (c # cs) p = (startswith (c # cs) p \<or> contains cs p)"

fun split_ws :: "string \<Rightarrow> string \<Rightarrow> string list" where
  \<comment> \<open>\<^verbatim>\<open>s.split()\<close>: the maximal runs of non-blank characters; the first argument
      is the run read so far.\<close>
  "split_ws acc [] = (if acc = [] then [] else [acc])"
| "split_ws acc (c # cs) =
     (if isspace c then (if acc = [] then split_ws [] cs else acc # split_ws [] cs)
      else split_ws (acc @ [c]) cs)"

definition split :: "string \<Rightarrow> string list" where
  "split s = split_ws [] s"

section \<open>The substitutions of the message normalizer\<close>

text \<open>
  \<^verbatim>\<open>\w\<close> of a Python \<^verbatim>\<open>str\<close> pattern: an alphanumeric character or the underscore.
  \<^verbatim>\<open>\b\<close> holds between a word character and a character that is not one (or an
  end of the string).
\<close>

definition is_word :: "char \<Rightarrow> bool" where
  "is_word c = (isalnum c \<or> c = CHR ''_'')"

text \<open>
  \<^verbatim>\<open>re.sub(r'\b(w1|...|wn)\b', f, s, flags=re.IGNORECASE)\<close> where every alternative
  is made of word characters: \<^verbatim>\<open>\b\<close> on both sides makes a match a maximal run of
  word characters, so the scan takes each such run whole and hands it to \<open>f\<close>, which
  rewrites the runs that are one of the alternatives and returns the others as they are.
\<close>

function sub_words :: "(string \<Rightarrow> string) \<Rightarrow> string \<Rightarrow> string" where
  "sub_words f [] = []"
| "sub_words f (c # cs) =
     (if is_word c then f (c # takeWhile is_word cs) @ sub_words f (dropWhile is_word cs)
      else c # sub_words f cs)"
  by pat_completeness auto
termination
  by (relation "measure (\<lambda>(f, s). length s)") (auto simp: length_dropWhile_le less_Suc_eq_le)

definition contractions :: "string list" where
  "contractions = [''cant'', ''wont'', ''dont'', ''isnt'', ''arent'', ''wasnt'', ''werent'']"

definition fix_contraction :: "string \<Rightarrow> string" where
  \<comment> \<open>\<^verbatim>\<open>lambda m: m.group(1)[0] + "'" + m.group(1)[1:]\<close> on a matching word\<close>
  "fix_contraction w =
     (if lower w \<in> set contractions then hd w # CHR 0x27 # tl w else w)"

definition fix_word :: "string \<Rightarrow> string \<Rightarrow> string \<Rightarrow> string" where
  \<comment> \<open>\<^verbatim>\<open>re.sub(r'\bpat\b', repl, s, flags=re.IGNORECASE)\<close> on one word\<close>
  "fix_word pat repl w = (if lower w = pat then repl else w)"

text \<open>
  \<^verbatim>\<open>re.sub(r'\byou\s+are\s+right\b', 'you are correct', s, flags=re.IGNORECASE)\<close>.
  A match starts at the start of a maximal word (\<^verbatim>\<open>\b\<close> before a letter) that is
  \<^verbatim>\<open>you\<close>, goes over one or more blanks, the word \<^verbatim>\<open>are\<close>, blanks again, and ends with
  a maximal word that is \<^verbatim>\<open>right\<close>. \<open>match_phrase\<close> is given the text at a word start
  and returns the text after the match.
\<close>

definition match_phrase :: "string \<Rightarrow> string option" where
  "match_phrase s =
     (let w1 = takeWhile is_word s; r1 = dropWhile is_word s;
          b1 = takeWhile isspace r1; r2 = dropWhile isspace r1;
          w2 = takeWhile is_word r2; r3 = dropWhile is_word r2;
          b2 = takeWhile isspace r3; r4 = dropWhile isspace r3;
          w3 = takeWhile is_word r4; r5 = dropWhile is_word r4
      in if lower w1 = ''you'' \<and> b1 \<noteq> [] \<and> lower w2 = ''are'' \<and> b2 \<noteq> [] \<and> lower w3 = ''right''
         then Some r5 else None)"

lemma match_phrase_shorter:
  assumes "match_phrase s = Some rest"
  shows "length rest \<le> length (dropWhile is_word s)"
proof -
  let ?r1 = "dropWhile is_word s"
  let ?r2 = "dropWhile isspace ?r1"
  let ?r3 = "dropWhile is_word ?r2"
  let ?r4 = "dropWhile isspace ?r3"
  from assms have "rest = dropWhile is_word ?r4"
    by (simp add: match_phrase_def Let_def split: if_splits)
  then have "length rest \<le> length ?r4" by (simp add: length_dropWhile_le)
  also have "\<dots> \<le> length ?r3" by (rule length_dropWhile_le)
  also have "\<dots> \<le> length ?r2" by (rule length_dropWhile_le)
  also have "\<dots> \<le> length ?r1" by (rule length_dropWhile_le)
  finally show ?thesis .
qed

lemma match_phrase_Cons_shorter:
  assumes "match_phrase (c # cs) = Some rest" and "is_word c"
  shows "length rest < Suc (length cs)"
proof -
  from match_phrase_shorter [OF assms(1)] assms(2)
  have "length rest \<le> length (dropWhile is_word cs)" by simp
  also have "\<dots> \<le> length cs" by (rule length_dropWhile_le)
  finally show ?thesis by simp
qed

function sub_phrase :: "string \<Rightarrow> string" where
  "sub_phrase [] = []"
| "sub_phrase (c # cs) =
     (if is_word c then
        (case match_phrase (c # cs) of
           Some rest \<Rightarrow> ''you are correct'' @ sub_phrase rest
         | None \<Rightarrow> (c # takeWhile is_word cs) @ sub_phrase (dropWhile is_word cs))
      else c # sub_phrase cs)"
  by pat_completeness auto
termination
  by (relation "measure length")
     (auto simp: length_dropWhile_le less_Suc_eq_le match_phrase_Cons_shorter [unfolded less_Suc_eq_le])

function collapse_ws :: "string \<Rightarrow> string" where
  \<comment> \<open>\<^verbatim>\<open>re.sub(r'\s+', ' ', s)\<close>: each maximal run of blanks becomes one space.\<close>
  "collapse_ws [] = []"
| "collapse_ws (c # cs) =
     (if isspace c then CHR '' '' # collapse_ws (dropWhile isspace cs)
      else c # collapse_ws cs)"
  by pat_completeness auto
termination
  by (relation "measure length") (auto simp: length_dropWhile_le less_Suc_eq_le)

section \<open>The message normalizer\<close>

record Message =
  role :: string
  content :: string

text \<open>
  \<^verbatim>\<open>fine_tune_user_message\<close> is one function in the source, a sequence of numbered
  steps on the local \<^verbatim>\<open>tuned_message\<close>. Each step is a function here, named after the
  step's comment, and \<open>fine_tune_user_message\<close> composes them in the source's order.
\<close>

definition fix_typos :: "string \<Rightarrow> string" where
  \<comment> \<open>step 1: the contractions, then \<^verbatim>\<open>common_fixes\<close> in the order of the dictionary\<close>
  "fix_typos t =
     sub_phrase
       (sub_words (fix_word ''yoru'' ''your'')
         (sub_words (fix_word ''adn'' ''and'')
           (sub_words (fix_word ''teh'' ''the'')
             (sub_words fix_contraction t))))"

definition greeting_words :: "string list" where
  "greeting_words = [''hi'', ''hello'', ''help'', ''thanks'', ''thank'']"

definition add_clarity :: "string \<Rightarrow> string" where
  \<comment> \<open>step 2\<close>
  "add_clarity t =
     (if length (split t) < 3 \<and> \<not> endswith t ''?'' then
        (if \<not> list_ex (\<lambda>word. contains (lower t) word) greeting_words then
           (if \<not> contains t ''?'' then ''Please explain: '' @ t else t)
         else t)
      else t)"

definition question_words :: "string list" where
  "question_words = [''what'', ''how'', ''why'', ''when'', ''where'', ''who'', ''which'',
     ''can'', ''could'', ''should'', ''would'', ''is'', ''are'', ''do'', ''does'', ''did'']"

definition question_formatting :: "string \<Rightarrow> string" where
  \<comment> \<open>step 3\<close>
  "question_formatting t =
     (if list_ex (\<lambda>word. startswith (lower t) word) question_words \<and> \<not> endswith t ''?'' then
        (if \<not> endswith t ''.'' then rstrip_chars ''.!'' t @ ''?'' else t)
      else t)"

definition context_keywords :: "string list" where
  "context_keywords = [''it'', ''this'', ''that'', ''above'', ''previous'', ''earlier'', ''before'']"

definition add_context :: "Message list option \<Rightarrow> string \<Rightarrow> string" where
  \<comment> \<open>step 4: the body of the innermost \<^verbatim>\<open>if\<close> is \<^verbatim>\<open>pass\<close>\<close>
  "add_context conversation_context t =
     (case conversation_context of
        None \<Rightarrow> t
      | Some msgs \<Rightarrow>
          if msgs \<noteq> [] \<and> length msgs > 1 then
            (if list_ex (\<lambda>keyword. contains (lower t) keyword) context_keywords then t else t)
          else t)"

definition normalize_whitespace :: "string \<Rightarrow> string" where
  \<comment> \<open>step 5\<close>
  "normalize_whitespace t = strip (collapse_ws t)"

definition capitalize_first :: "string \<Rightarrow> string" where
  \<comment> \<open>step 6\<close>
  "capitalize_first t =
     (if t \<noteq> [] \<and> \<not> isupper (hd t) \<and> isalpha (hd t) then upper_char (hd t) @ tl t else t)"

definition sentence_ending :: "string \<Rightarrow> string" where
  \<comment> \<open>step 7\<close>
  "sentence_ending t =
     (if t \<noteq> [] \<and> isalnum (last t) then
        (if \<not> list_ex (\<lambda>word. contains (lower t) word) question_words then t @ ''.'' else t)
      else t)"

definition fine_tune_user_message :: "string \<Rightarrow> Message list option \<Rightarrow> string" where
  "fine_tune_user_message message_content conversation_context =
     (if message_content = [] \<or> strip message_content = [] then message_content
      else sentence_ending (capitalize_first (normalize_whitespace
             (add_context conversation_context
               (question_formatting (add_clarity (fix_typos (strip message_content))))))))"

section \<open>Values read by \<^verbatim>\<open>json.loads\<close>\<close>

text \<open>
  \<^verbatim>\<open>json.loads\<close> is Python's library function; the relay depends on the type of value
  it returns and on the exception it raises. \<open>pyval\<close> is the value, a dictionary being
  the list of its members, with distinct keys, in the order of insertion.
  A number with a fraction or an exponent is a float. The model keeps the literal of a
  float and does not compute the text that Python prints for it, so nothing below is
  stated of the text of a float. The interpreter's bounds on the digits of an integer
  and on the depth of the nesting are not modelled: the decoder below is Python's on the
  lines that stay within them.
\<close>

datatype pyval =
    PNone
  | PBool bool
  | PInt int
  | PFloat string
  | PStr string
  | PList "pyval list"
  | PDict "(string \<times> pyval) list"

definition dq :: char where "dq = CHR 0x22"
definition bs :: char where "bs = CHR 0x5C"
definition nl :: char where "nl = CHR 0x0A"

definition json_ws :: "char \<Rightarrow> bool" where
  "json_ws c = (c = CHR '' '' \<or> c = CHR 0x09 \<or> c = CHR 0x0A \<or> c = CHR 0x0D)"

definition hex_val :: "char \<Rightarrow> nat option" where
  "hex_val c =
     (let n = (of_char c :: nat) in
      if 48 \<le> n \<and> n \<le> 57 then Some (n - 48)
      else if 97 \<le> n \<and> n \<le> 102 then Some (n - 87)
      else if 65 \<le> n \<and> n \<le> 70 then Some (n - 55)
      else None)"

definition hex4 :: "string \<Rightarrow> nat option" where
  "hex4 s =
     (case map hex_val (take 4 s) of
        [Some a, Some b, Some c, Some d] \<Rightarrow> Some (((a * 16 + b) * 16 + c) * 16 + d)
      | _ \<Rightarrow> None)"

definition unescape :: "char \<Rightarrow> char option" where
  "unescape e =
     (if e = dq then Some dq
      else if e = bs then Some bs
      else if e = CHR ''/'' then Some (CHR ''/'')
      else if e = CHR ''b'' then Some (CHR 0x08)
      else if e = CHR ''f'' then Some (CHR 0x0C)
      else if e = CHR ''n'' then Some (CHR 0x0A)
      else if e = CHR ''r'' then Some (CHR 0x0D)
      else if e = CHR ''t'' then Some (CHR 0x09)
      else None)"

definition char_of_code_point :: "nat \<Rightarrow> char option" where
  \<comment> \<open>the character that stands for a code point, if one does\<close>
  "char_of_code_point n =
     (if n < 128 then Some (char_of n)
      else if n = 0x1F0 then Some (CHR 0x80)
      else if n = 0x30C then Some (CHR 0x81)
      else if 0xE082 \<le> n \<and> n \<le> 0xE0FF then Some (char_of (n - 0xE000))
      else None)"

function scan_string :: "string \<Rightarrow> string \<Rightarrow> (string \<times> string) option" where
  \<comment> \<open>the text after an opening quote: the string read and the text after its closing
      quote. A line with a \<^verbatim>\<open>\uXXXX\<close> escape of a code point that no character stands for
      is outside the model, and no string is read from it.\<close>
  "scan_string acc [] = None"
| "scan_string acc (c # cs) =
     (if c = dq then Some (acc, cs)
      else if c = bs then
        (case cs of
           [] \<Rightarrow> None
         | e # es \<Rightarrow>
             if e = CHR ''u'' then
               (case hex4 es of
                  None \<Rightarrow> None
                | Some n \<Rightarrow>
                    (case char_of_code_point n of
                       None \<Rightarrow> None
                     | Some x \<Rightarrow> scan_string (acc @ [x]) (drop 4 es)))
             else
               (case unescape e of
                  None \<Rightarrow> None
                | Some x \<Rightarrow> scan_string (acc @ [x]) es))
      else if (of_char c :: nat) < 32 then None
      else scan_string (acc @ [c]) cs)"
  by pat_completeness auto
termination
  by (relation "measure (\<lambda>(acc, s). length s)") auto

definition digits_val :: "string \<Rightarrow> nat" where
  "digits_val ds = foldl (\<lambda>n d. 10 * n + (of_char d - 48)) 0 ds"

definition scan_number :: "string \<Rightarrow> (pyval \<times> string) option" where
  \<comment> \<open>\<^verbatim>\<open>(-?(?:0|[1-9]\d*))(\.\d+)?([eE][-+]?\d+)?\<close>\<close>
  "scan_number s =
     (let neg = (s \<noteq> [] \<and> hd s = CHR ''-'');
          s1 = (if neg then tl s else s);
          ip = (if s1 \<noteq> [] \<and> hd s1 = CHR ''0'' then ''0'' else takeWhile isdigit s1);
          s2 = drop (length ip) s1;
          fr = (if 2 \<le> length s2 \<and> hd s2 = CHR ''.'' \<and> isdigit (s2 ! 1)
                then CHR ''.'' # takeWhile isdigit (tl s2) else []);
          s3 = drop (length fr) s2;
          sg = (if 2 \<le> length s3 \<and> (s3 ! 1 = CHR ''+'' \<or> s3 ! 1 = CHR ''-'') then [s3 ! 1] else []);
          ed = (if s3 \<noteq> [] \<and> (hd s3 = CHR ''e'' \<or> hd s3 = CHR ''E'')
                then takeWhile isdigit (drop (Suc (length sg)) s3) else []);
          ex = (if ed = [] then [] else hd s3 # sg @ ed);
          s4 = drop (length ex) s3
      in if ip = [] then None
         else if fr = [] \<and> ex = [] then
           Some (PInt (if neg then - int (digits_val ip) else int (digits_val ip)), s4)
         else Some (PFloat ((if neg then ''-'' else []) @ ip @ fr @ ex), s4))"

fun dict_set :: "string \<Rightarrow> pyval \<Rightarrow> (string \<times> pyval) list \<Rightarrow> (string \<times> pyval) list" where
  \<comment> \<open>\<^verbatim>\<open>d[k] = v\<close>: a key already there keeps its place and takes the new value\<close>
  "dict_set k v [] = [(k, v)]"
| "dict_set k v ((k', v') # d) = (if k' = k then (k, v) # d else (k', v') # dict_set k v d)"

text \<open>
  The recursive descent of the decoder. The first argument bounds the depth of the
  calls; \<open>json_loads\<close> gives a bound that no text reaches, since every second call
  reads at least one character.
\<close>

fun parse_value :: "nat \<Rightarrow> string \<Rightarrow> (pyval \<times> string) option"
  and parse_elements :: "nat \<Rightarrow> pyval list \<Rightarrow> string \<Rightarrow> (pyval \<times> string) option"
  and parse_members :: "nat \<Rightarrow> (string \<times> pyval) list \<Rightarrow> string \<Rightarrow> (pyval \<times> string) option"
where
  "parse_value 0 s = None"
| "parse_value (Suc n) s =
     (case s of
        [] \<Rightarrow> None
      | c # cs \<Rightarrow>
          if c = dq then map_option (\<lambda>(x, r). (PStr x, r)) (scan_string [] cs)
          else if c = CHR ''{'' then
            (case dropWhile json_ws cs of
               [] \<Rightarrow> None
             | d # ds \<Rightarrow> if d = CHR ''}'' then Some (PDict [], ds) else parse_members n [] (d # ds))
          else if c = CHR ''['' then
            (case dropWhile json_ws cs of
               [] \<Rightarrow> None
             | d # ds \<Rightarrow> if d = CHR '']'' then Some (PList [], ds) else parse_elements n [] (d # ds))
          else if take 4 s = ''null'' then Some (PNone, drop 4 s)
          else if take 4 s = ''true'' then Some (PBool True, drop 4 s)
          else if take 5 s = ''false'' then Some (PBool False, drop 5 s)
          else
            (case scan_number s of
               Some r \<Rightarrow> Some r
             | None \<Rightarrow>
                 if take 3 s = ''NaN'' then Some (PFloat ''NaN'', drop 3 s)
                 else if take 8 s = ''Infinity'' then Some (PFloat ''Infinity'', drop 8 s)
                 else if take 9 s = ''-Infinity'' then Some (PFloat ''-Infinity'', drop 9 s)
                 else None))"
| "parse_elements 0 acc s = None"
| "parse_elements (Suc n) acc s =
     (case parse_value n s of
        None \<Rightarrow> None
      | Some (v, r) \<Rightarrow>
          (case dropWhile json_ws r of
             [] \<Rightarrow> None
           | d # ds \<Rightarrow>
               if d = CHR '']'' then Some (PList (acc @ [v]), ds)
               else if d = CHR '','' then parse_elements n (acc @ [v]) (dropWhile json_ws ds)
               else None))"
| "parse_members 0 acc s = None"
| "parse_members (Suc n) acc s =
     (case s of
        [] \<Rightarrow> None
      | c # cs \<Rightarrow>
          if c \<noteq> dq then None
          else
            (case scan_string [] cs of
               None \<Rightarrow> None
             | Some (k, r) \<Rightarrow>
                 (case dropWhile json_ws r of
                    [] \<Rightarrow> None
                  | d # ds \<Rightarrow>
                      if d \<noteq> CHR '':'' then None
                      else
                        (case parse_value n (dropWhile json_ws ds) of
                           None \<Rightarrow> None
                         | Some (v, r') \<Rightarrow>
                             (case dropWhile json_ws r' of
                                [] \<Rightarrow> None
                              | d' # ds' \<Rightarrow>
                                  if d' = CHR ''}'' then Some (PDict (dict_set k v acc), ds')
                                  else if d' = CHR '','' then
                                    parse_members n (dict_set k v acc) (dropWhile json_ws ds')
                                  else None)))))"

definition json_loads :: "string \<Rightarrow> pyval option" where
  \<comment> \<open>\<open>None\<close> is \<^verbatim>\<open>json.JSONDecodeError\<close>: no value, or text after the value.\<close>
  "json_loads s =
     (case parse_value (2 * length s + 2) (dropWhile json_ws s) of
        None \<Rightarrow> None
      | Some (v, r) \<Rightarrow> if dropWhile json_ws r = [] then Some v else None)"

section \<open>Python operations on the values\<close>

datatype pyexc = TypeError | AttributeError

fun py_in :: "string \<Rightarrow> pyval \<Rightarrow> pyexc + bool" where
  \<comment> \<open>\<^verbatim>\<open>k in v\<close> for a string \<open>k\<close>: a key of a dictionary, an element of a list, a
      substring of a string; any other value is not a container.\<close>
  "py_in k (PDict d) = Inr (k \<in> fst ` set d)"
| "py_in k (PList xs) = Inr (PStr k \<in> set xs)"
| "py_in k (PStr s) = Inr (contains s k)"
| "py_in k v = Inl TypeError"

fun py_get :: "pyval \<Rightarrow> string \<Rightarrow> pyval \<Rightarrow> pyexc + pyval" where
  \<comment> \<open>\<^verbatim>\<open>v.get(k, default)\<close>: only a dictionary has the method\<close>
  "py_get (PDict d) k dflt = Inr (case map_of d k of None \<Rightarrow> dflt | Some x \<Rightarrow> x)"
| "py_get v k dflt = Inl AttributeError"

fun py_lower :: "pyval \<Rightarrow> pyexc + string" where
  \<comment> \<open>\<^verbatim>\<open>v.lower()\<close>: only a string has the method\<close>
  "py_lower (PStr s) = Inr (lower s)"
| "py_lower v = Inl AttributeError"

definition digit_char :: "nat \<Rightarrow> char" where
  "digit_char d = char_of (48 + d)"

function show_nat :: "nat \<Rightarrow> string" where
  "show_nat n = (if n < 10 then [digit_char n] else show_nat (n div 10) @ [digit_char (n mod 10)])"
  by pat_completeness auto
termination
  by (relation "measure id") auto

definition show_int :: "int \<Rightarrow> string" where
  "show_int i = (if i < 0 then CHR ''-'' # show_nat (nat (- i)) else show_nat (nat i))"

fun join :: "string \<Rightarrow> string list \<Rightarrow> string" where
  "join sep [] = []"
| "join sep [x] = x"
| "join sep (x # y # ys) = x @ sep @ join sep (y # ys)"

definition hex_digit :: "nat \<Rightarrow> char" where
  "hex_digit d = (if d < 10 then char_of (48 + d) else char_of (87 + d))"

definition repr_char :: "char \<Rightarrow> char \<Rightarrow> string" where
  "repr_char q c =
     (let n = (of_char c :: nat) in
      if c = q \<or> c = bs then [bs, c]
      else if n = 9 then [bs, CHR ''t'']
      else if n = 10 then [bs, CHR ''n'']
      else if n = 13 then [bs, CHR ''r'']
      else if n < 32 \<or> n = 127 then [bs, CHR ''x'', hex_digit (n div 16), hex_digit (n mod 16)]
      else if 130 \<le> n then [bs, CHR ''u'', CHR ''e'', CHR ''0'', hex_digit (n div 16), hex_digit (n mod 16)]
      else [c])"

definition repr_str :: "string \<Rightarrow> string" where
  \<comment> \<open>\<^verbatim>\<open>repr\<close> of a string: in single quotes, unless it has one and no double quote\<close>
  "repr_str s =
     (let q = (if CHR 0x27 \<in> set s \<and> dq \<notin> set s then dq else CHR 0x27)
      in q # concat (map (repr_char q) s) @ [q])"

fun py_repr :: "pyval \<Rightarrow> string" where
  "py_repr PNone = ''None''"
| "py_repr (PBool b) = (if b then ''True'' else ''False'')"
| "py_repr (PInt i) = show_int i"
| "py_repr (PFloat x) = x"
| "py_repr (PStr s) = repr_str s"
| "py_repr (PList xs) = ''['' @ join '', '' (map py_repr xs) @ '']''"
| "py_repr (PDict d) =
     ''{'' @ join '', '' (map (\<lambda>kv. repr_str (fst kv) @ '': '' @ py_repr (snd kv)) d) @ ''}''"

definition py_str :: "pyval \<Rightarrow> string" where
  \<comment> \<open>the text a value has inside an f-string\<close>
  "py_str v = (case v of PStr s \<Rightarrow> s | _ \<Rightarrow> py_repr v)"

section \<open>The streaming relay\<close>

record ChatRequest =
  model :: string
  messages :: "Message list"
  stream :: bool

text \<open>
  The process environment: \<^verbatim>\<open>OLLAMA_BASE_URL\<close> as read at start-up, and the variable
  \<^verbatim>\<open>DEFAULT_MODEL\<close>, which may be unset.
\<close>

record config =
  ollama_base_url :: string
  env_default_model :: "string option"

text \<open>The dictionary \<^verbatim>\<open>ollama_request\<close> posted to the backend.\<close>

record OllamaRequest =
  req_model :: string
  req_messages :: "Message list"
  req_stream :: bool

text \<open>
  What the backend does with the request. \<^verbatim>\<open>client.stream\<close> raises, or gives a
  response: its status, its body as \<^verbatim>\<open>aread().decode()\<close> gives it (\<open>None\<close> when the
  bytes do not decode), the lines that \<^verbatim>\<open>aiter_lines\<close> delivers, and the exception that
  ends the iteration, if one does.
\<close>

datatype exn = TimeoutException | ConnectError | OtherException string

record Response =
  status_code :: int
  error_text :: "string option"
  resp_lines :: "string list"
  resp_failure :: "exn option"

datatype reply = Raises exn | Responds Response

text \<open>
  What \<^verbatim>\<open>stream_response\<close> yields: a backend line passed on (\<^verbatim>\<open>yield f"{line}\n"\<close>), or
  an error line of the relay's own (\<^verbatim>\<open>yield f'{{"error": "{...}"}}\n'\<close>) with the text
  put between the quotes.
\<close>

datatype event = Line string | ErrorEvent string

definition render :: "event \<Rightarrow> string" where
  "render e =
     (case e of
        Line l \<Rightarrow> l @ [nl]
      | ErrorEvent msg \<Rightarrow> CHR ''{'' # dq # ''error'' @ [dq] @ '': '' @ [dq] @ msg @ [dq] @ ''}'' @ [nl])"

definition default_model :: "config \<Rightarrow> string" where
  \<comment> \<open>\<^verbatim>\<open>os.getenv("DEFAULT_MODEL", "phi3:mini-128k")\<close>\<close>
  "default_model cfg = (case env_default_model cfg of None \<Rightarrow> ''phi3:mini-128k'' | Some v \<Rightarrow> v)"

definition resolve_model :: "config \<Rightarrow> string \<Rightarrow> string" where
  "resolve_model cfg model_name =
     (if model_name = [] \<or> strip model_name = [] \<or> lower model_name = ''string''
      then default_model cfg
      else strip model_name)"

definition fine_tuned_messages :: "Message list \<Rightarrow> Message list" where
  "fine_tuned_messages msgs =
     map (\<lambda>(i, msg).
            if role msg = ''user'' then
              \<lparr>role = role msg,
               content = fine_tune_user_message (content msg)
                           (if i > 0 then Some (take i msgs) else None)\<rparr>
            else \<lparr>role = role msg, content = content msg\<rparr>)
         (enumerate 0 msgs)"

definition ollama_request :: "config \<Rightarrow> ChatRequest \<Rightarrow> OllamaRequest" where
  "ollama_request cfg request =
     \<lparr>req_model = resolve_model cfg (model request),
      req_messages = fine_tuned_messages (messages request),
      req_stream = stream request\<rparr>"

definition timeout_message :: "string \<Rightarrow> string" where
  "timeout_message model_name =
     ''Model loading timeout. The model may be loading for the first time. '' @
     ''Please try again in a moment, or check if the model '' @ [bs, dq] @ model_name @ [bs, dq] @
     '' is properly installed in Ollama.''"

definition not_found_message :: "string \<Rightarrow> string" where
  "not_found_message model_name =
     ''Model '' @ [bs, dq] @ model_name @ [bs, dq] @
     '' not found in Ollama. Please install it using: ollama pull '' @ model_name"

text \<open>
  Lines 197 to 207 on a decoded line: \<open>Inr None\<close> when the line has no \<^verbatim>\<open>error\<close>,
  \<open>Inr (Some msg)\<close> when an error line with \<open>msg\<close> is yielded and the generator returns,
  \<open>Inl e\<close> when an exception leaves the inner \<^verbatim>\<open>try\<close>, which catches
  \<^verbatim>\<open>json.JSONDecodeError\<close> and \<^verbatim>\<open>KeyError\<close> only.
\<close>

definition inspect_error :: "string \<Rightarrow> pyval \<Rightarrow> pyexc + string option" where
  "inspect_error model_name line_data =
     (case py_in ''error'' line_data of
        Inl e \<Rightarrow> Inl e
      | Inr False \<Rightarrow> Inr None
      | Inr True \<Rightarrow>
          (case py_get line_data ''error'' (PStr []) of
             Inl e \<Rightarrow> Inl e
           | Inr error_msg \<Rightarrow>
               (case py_in ''timed out waiting for llama runner'' error_msg of
                  Inl e \<Rightarrow> Inl e
                | Inr True \<Rightarrow> Inr (Some (timeout_message model_name))
                | Inr False \<Rightarrow>
                    (case py_lower error_msg of
                       Inl e \<Rightarrow> Inl e
                     | Inr low \<Rightarrow>
                         if contains low ''timeout'' then Inr (Some (timeout_message model_name))
                         else if contains low ''model'' \<and>
                                 (contains low ''not found'' \<or> contains low ''does not exist'')
                         then Inr (Some (not_found_message model_name))
                         else Inr (Some (py_str error_msg))))))"

datatype step = Skip | Yield string | Stop string

definition process_line :: "string \<Rightarrow> string \<Rightarrow> step" where
  \<comment> \<open>the body of the loop over the lines; an exception that leaves the inner \<^verbatim>\<open>try\<close>
      is caught by \<^verbatim>\<open>except Exception\<close> at line 212, which goes on to the next line\<close>
  "process_line model_name line =
     (if line = [] then Skip
      else
        (case json_loads line of
           None \<Rightarrow> Yield line
         | Some line_data \<Rightarrow>
             (case inspect_error model_name line_data of
                Inl e \<Rightarrow> Skip
              | Inr None \<Rightarrow> Yield line
              | Inr (Some msg) \<Rightarrow> Stop msg)))"

fun relay_lines :: "string \<Rightarrow> string list \<Rightarrow> exn option \<Rightarrow> event list \<times> exn option" where
  \<comment> \<open>the loop: the events yielded, and the exception raised by the iterator if the
      loop runs to the end of the lines and the iteration fails there\<close>
  "relay_lines model_name [] failure = ([], failure)"
| "relay_lines model_name (line # rest) failure =
     (case process_line model_name line of
        Skip \<Rightarrow> relay_lines model_name rest failure
      | Yield l \<Rightarrow> (let (evs, ex) = relay_lines model_name rest failure in (Line l # evs, ex))
      | Stop msg \<Rightarrow> ([ErrorEvent msg], None))"

definition error_detail :: "Response \<Rightarrow> string" where
  \<comment> \<open>lines 182 to 188; the bare \<^verbatim>\<open>except\<close> keeps the generic text\<close>
  "error_detail r =
     (let generic = ''Ollama API error: '' @ show_int (status_code r) in
      case error_text r of
        None \<Rightarrow> generic
      | Some text \<Rightarrow>
          (case json_loads text of
             None \<Rightarrow> generic
           | Some error_json \<Rightarrow>
               (case py_get error_json ''error'' (PStr generic) of
                  Inl e \<Rightarrow> generic
                | Inr v \<Rightarrow> py_str v)))"

definition handle_exn :: "config \<Rightarrow> exn \<Rightarrow> event list" where
  \<comment> \<open>the handlers at lines 215 to 222\<close>
  "handle_exn cfg e =
     (case e of
        TimeoutException \<Rightarrow>
          [ErrorEvent ''Request timeout to Ollama. Make sure Ollama is running and responsive.'']
      | ConnectError \<Rightarrow>
          [ErrorEvent (''Cannot connect to Ollama server at '' @ ollama_base_url cfg @
                       ''. Make sure Ollama is running.'')]
      | OtherException msg \<Rightarrow> [ErrorEvent (''Internal server error: '' @ msg)])"

definition stream_response :: "config \<Rightarrow> (OllamaRequest \<Rightarrow> reply) \<Rightarrow> ChatRequest \<Rightarrow> event list" where
  "stream_response cfg backend request =
     (let model_name = resolve_model cfg (model request) in
      case backend (ollama_request cfg request) of
        Raises e \<Rightarrow> handle_exn cfg e
      | Responds response \<Rightarrow>
          if status_code response \<noteq> 200 then [ErrorEvent (error_detail response)]
          else
            (let (evs, ex) = relay_lines model_name (resp_lines response) (resp_failure response)
             in evs @ (case ex of None \<Rightarrow> [] | Some e \<Rightarrow> handle_exn cfg e)))"

section \<open>Example inputs\<close>

text \<open>Concrete inputs, at which the theorems below are instantiated.\<close>

definition example_config :: config where
  "example_config = \<lparr>ollama_base_url = ''http://localhost:11434'', env_default_model = None\<rparr>"

definition example_request :: ChatRequest where
  "example_request =
     \<lparr>model = ''xyz'',
      messages = [\<lparr>role = ''system'', content = ''be brief''\<rparr>,
                  \<lparr>role = ''user'', content = ''whats the time''\<rparr>,
                  \<lparr>role = ''assistant'', content = ''noon''\<rparr>],
      stream = True\<rparr>"

definition ok_response :: "string list \<Rightarrow> exn option \<Rightarrow> OllamaRequest \<Rightarrow> reply" where
  "ok_response ls f q = Responds \<lparr>status_code = 200, error_text = None, resp_lines = ls, resp_failure = f\<rparr>"



section \<open>Notions used in the proofs\<close>

text \<open>An event is an error line of the relay's own.\<close>

definition is_error :: "event \<Rightarrow> bool" where
  "is_error e = (case e of ErrorEvent msg \<Rightarrow> True | Line l \<Rightarrow> False)"

text \<open>
  The text that the client receives is the yielded texts one after the other, and its
  lines are the texts that end at each line feed (a text after the last line feed is a
  line too). \<open>event_line\<close> is the text of an event before its final line feed; it is one
  line of the stream when it holds no line feed of its own.
\<close>

definition stream_text :: "event list \<Rightarrow> string" where
  "stream_text evs = concat (map render evs)"

fun split_lines :: "string \<Rightarrow> string \<Rightarrow> string list" where
  "split_lines acc [] = (if acc = [] then [] else [acc])"
| "split_lines acc (c # cs) =
     (if c = nl then acc # split_lines [] cs else split_lines (acc @ [c]) cs)"

definition stream_lines :: "event list \<Rightarrow> string list" where
  "stream_lines evs = split_lines [] (stream_text evs)"

definition error_line :: "string \<Rightarrow> string" where
  "error_line msg = CHR ''{'' # dq # ''error'' @ [dq] @ '': '' @ [dq] @ msg @ [dq] @ ''}''"

definition event_line :: "event \<Rightarrow> string" where
  "event_line e = (case e of Line l \<Rightarrow> l | ErrorEvent msg \<Rightarrow> error_line msg)"

text \<open>
  The uppercase form of an ASCII character, as one character: \<open>upper_char\<close> of an
  ASCII character is the text of this one character (\<open>upper_char_ascii\<close> below).
\<close>

definition ascii_upper :: "char \<Rightarrow> char" where
  "ascii_upper c =
     (let n = (of_char c :: nat) in if 97 \<le> n \<and> n \<le> 122 then char_of (n - 32) else c)"

text \<open>
  The maximal runs of word characters of a text, in order: the words that
  \<open>sub_words\<close> hands to its function.
\<close>

function words :: "string \<Rightarrow> string list" where
  "words [] = []"
| "words (c # cs) =
     (if is_word c then (c # takeWhile is_word cs) # words (dropWhile is_word cs)
      else words cs)"
  by pat_completeness auto
termination
  by (relation "measure length") (auto simp: length_dropWhile_le less_Suc_eq_le)

text \<open>A text that is empty or starts with a character that is not a word character.\<close>

definition starts_sep :: "string \<Rightarrow> bool" where
  "starts_sep s = (s = [] \<or> \<not> is_word (hd s))"

text \<open>Every word of a text has a property; a word is none of the listed words, in any case of letters.\<close>

definition all_words :: "(string \<Rightarrow> bool) \<Rightarrow> string \<Rightarrow> bool" where
  "all_words P s = (\<forall>w \<in> set (words s). P w)"

definition avoid :: "string list \<Rightarrow> string \<Rightarrow> bool" where
  "avoid B w = (lower w \<notin> set B)"

text \<open>The words that step 1 rewrites.\<close>

definition typo_words :: "string list" where
  "typo_words = ''yoru'' # ''adn'' # ''teh'' # contractions"

text \<open>
  The condition of \<open>match_phrase\<close> and the text it returns, taken apart:
  \<open>match_phrase s\<close> is \<open>Some (after_phrase s)\<close> when \<open>phrase_at s\<close>, and \<open>None\<close> otherwise.
\<close>

definition phrase_at :: "string \<Rightarrow> bool" where
  "phrase_at s =
     (lower (takeWhile is_word s) = ''you'' \<and>
      takeWhile isspace (dropWhile is_word s) \<noteq> [] \<and>
      lower (takeWhile is_word (dropWhile isspace (dropWhile is_word s))) = ''are'' \<and>
      takeWhile isspace (dropWhile is_word (dropWhile isspace (dropWhile is_word s))) \<noteq> [] \<and>
      lower (takeWhile is_word (dropWhile isspace (dropWhile is_word
               (dropWhile isspace (dropWhile is_word s))))) = ''right'')"

definition after_phrase :: "string \<Rightarrow> string" where
  "after_phrase s =
     dropWhile is_word (dropWhile isspace (dropWhile is_word
       (dropWhile isspace (dropWhile is_word s))))"

text \<open>Every blank of a text is a single space that no blank follows.\<close>

fun single_spaced :: "string \<Rightarrow> bool" where
  "single_spaced [] = True"
| "single_spaced [c] = (isspace c \<longrightarrow> c = CHR '' '')"
| "single_spaced (a # b # cs) = ((isspace a \<longrightarrow> a = CHR '' '' \<and> \<not> isspace b) \<and> single_spaced (b # cs))"

text \<open>A text with no blank at either end.\<close>

definition stripped :: "string \<Rightarrow> bool" where
  "stripped s = (takeWhile isspace s = [] \<and> takeWhile isspace (rev s) = [])"

section \<open>Properties of the relay\<close>

lemma relay_lines_shape:
  "\<exists>ls. relay_lines m xs f = (map Line ls, f) \<or>
        (\<exists>msg. relay_lines m xs f = (map Line ls @ [ErrorEvent msg], None))"
proof (induction xs)
  case Nil
  have "relay_lines m [] f = (map Line [], f)" by simp
  then show ?case by blast
next
  case (Cons x xs)
  then obtain ls where ih: "relay_lines m xs f = (map Line ls, f) \<or>
        (\<exists>msg. relay_lines m xs f = (map Line ls @ [ErrorEvent msg], None))" by blast
  show ?case
  proof (cases "process_line m x")
    case Skip
    with ih show ?thesis by auto
  next
    case (Yield l)
    from ih show ?thesis
    proof
      assume "relay_lines m xs f = (map Line ls, f)"
      with Yield have "relay_lines m (x # xs) f = (map Line (l # ls), f)" by simp
      then show ?thesis by blast
    next
      assume "\<exists>msg. relay_lines m xs f = (map Line ls @ [ErrorEvent msg], None)"
      then obtain msg where "relay_lines m xs f = (map Line ls @ [ErrorEvent msg], None)" by blast
      with Yield have "relay_lines m (x # xs) f = (map Line (l # ls) @ [ErrorEvent msg], None)"
        by simp
      then show ?thesis by blast
    qed
  next
    case (Stop msg)
    then have "relay_lines m (x # xs) f = (map Line [] @ [ErrorEvent msg], None)" by simp
    then show ?thesis by blast
  qed
qed

lemma handle_exn_single: "\<exists>msg. handle_exn cfg e = [ErrorEvent msg]"
  by (cases e) (simp_all add: handle_exn_def)

lemma stream_response_shape:
  "\<exists>ls. stream_response cfg backend request = map Line ls \<or>
        (\<exists>msg. stream_response cfg backend request = map Line ls @ [ErrorEvent msg])"
proof (cases "backend (ollama_request cfg request)")
  case (Raises e)
  from handle_exn_single obtain msg where "handle_exn cfg e = [ErrorEvent msg]" by blast
  with Raises have "stream_response cfg backend request = map Line [] @ [ErrorEvent msg]"
    by (simp add: stream_response_def)
  then show ?thesis by blast
next
  case (Responds r)
  show ?thesis
  proof (cases "status_code r = 200")
    case False
    with Responds have "stream_response cfg backend request = map Line [] @ [ErrorEvent (error_detail r)]"
      by (simp add: stream_response_def)
    then show ?thesis by blast
  next
    case True
    let ?m = "resolve_model cfg (model request)"
    from relay_lines_shape [of ?m "resp_lines r" "resp_failure r"]
    obtain ls where sh: "relay_lines ?m (resp_lines r) (resp_failure r) = (map Line ls, resp_failure r) \<or>
        (\<exists>msg. relay_lines ?m (resp_lines r) (resp_failure r) = (map Line ls @ [ErrorEvent msg], None))"
      by blast
    from sh show ?thesis
    proof
      assume a: "relay_lines ?m (resp_lines r) (resp_failure r) = (map Line ls, resp_failure r)"
      show ?thesis
      proof (cases "resp_failure r")
        case None
        with a Responds True have "stream_response cfg backend request = map Line ls"
          by (simp add: stream_response_def)
        then show ?thesis by blast
      next
        case (Some e)
        from handle_exn_single obtain msg where "handle_exn cfg e = [ErrorEvent msg]" by blast
        with a Some Responds True
        have "stream_response cfg backend request = map Line ls @ [ErrorEvent msg]"
          by (simp add: stream_response_def)
        then show ?thesis by blast
      qed
    next
      assume "\<exists>msg. relay_lines ?m (resp_lines r) (resp_failure r) = (map Line ls @ [ErrorEvent msg], None)"
      then obtain msg where "relay_lines ?m (resp_lines r) (resp_failure r) = (map Line ls @ [ErrorEvent msg], None)"
        by blast
      with Responds True have "stream_response cfg backend request = map Line ls @ [ErrorEvent msg]"
        by (simp add: stream_response_def)
      then show ?thesis by blast
    qed
  qed
qed

lemma shape_error_last:
  assumes "evs = map Line ls \<or> (\<exists>msg. evs = map Line ls @ [ErrorEvent msg])"
  shows "length (filter is_error evs) \<le> 1 \<and>
         (\<forall>i < length evs. is_error (evs ! i) \<longrightarrow> Suc i = length evs)"
proof -
  have nl: "filter is_error (map Line ls) = []" by (induction ls) (simp_all add: is_error_def)
  have ni: "\<not> is_error (map Line ls ! i)" if "i < length ls" for i
    using that by (simp add: is_error_def)
  from assms show ?thesis
  proof
    assume "evs = map Line ls"
    with nl ni show ?thesis by simp
  next
    assume "\<exists>msg. evs = map Line ls @ [ErrorEvent msg]"
    then obtain msg where e: "evs = map Line ls @ [ErrorEvent msg]" by blast
    have "Suc i = length evs" if "i < length evs" "is_error (evs ! i)" for i
    proof (cases "i < length ls")
      case True
      with e have "evs ! i = map Line ls ! i" by (simp add: nth_append)
      with ni [OF True] that show ?thesis by simp
    next
      case False
      with that e show ?thesis by simp
    qed
    moreover from e nl have "length (filter is_error evs) \<le> 1" by simp
    ultimately show ?thesis by blast
  qed
qed

lemma render_event_line: "render e = event_line e @ [nl]"
  by (cases e) (simp_all add: render_def event_line_def error_line_def)

lemma split_lines_chunk:
  "nl \<notin> set a \<Longrightarrow> split_lines acc (a @ nl # rest) = (acc @ a) # split_lines [] rest"
  by (induction a arbitrary: acc) auto

lemma stream_lines_chunks:
  "list_all (\<lambda>e. nl \<notin> set (event_line e)) evs \<Longrightarrow> stream_lines evs = map event_line evs"
proof (induction evs)
  case Nil
  then show ?case by (simp add: stream_lines_def stream_text_def)
next
  case (Cons e evs)
  then have n: "nl \<notin> set (event_line e)"
    and ih: "split_lines [] (concat (map render evs)) = map event_line evs"
    by (simp_all add: stream_lines_def stream_text_def)
  have "stream_lines (e # evs) = split_lines [] (event_line e @ nl # concat (map render evs))"
    by (simp add: stream_lines_def stream_text_def render_event_line)
  also have "\<dots> = ([] @ event_line e) # split_lines [] (concat (map render evs))"
    using n by (rule split_lines_chunk)
  finally show ?case using ih by simp
qed

text \<open>
  C1. For every request and every behaviour of the backend, the relay yields at most one
  error chunk of its own, and an error chunk is the last thing it yields: nothing
  follows it, whether lines were passed on before it or not. When no yielded text holds
  a line feed before its final one, the lines of the stream are the yielded texts, one
  line each, so the stream then has at most one error line of the relay and it is the
  last line.
\<close>

theorem error_chunk_at_most_once_and_last:
  "length (filter is_error (stream_response cfg backend request)) \<le> 1 \<and>
   (\<forall>i < length (stream_response cfg backend request).
      is_error (stream_response cfg backend request ! i) \<longrightarrow>
      Suc i = length (stream_response cfg backend request)) \<and>
   (list_all (\<lambda>e. nl \<notin> set (event_line e)) (stream_response cfg backend request) \<longrightarrow>
      stream_lines (stream_response cfg backend request) =
        map event_line (stream_response cfg backend request))"
  using stream_response_shape [of cfg backend request] shape_error_last stream_lines_chunks
  by blast

theorem error_chunk_at_most_once_and_last_witness:
  \<open>stream_response example_config
     (ok_response [''{"done":false}'', ''{"done":true}'', ''{"error":"model xyz not found"}''] None)
     example_request =
   [Line ''{"done":false}'', Line ''{"done":true}'', ErrorEvent (not_found_message ''xyz'')] \<and>
   Suc 2 = length (stream_response example_config
     (ok_response [''{"done":false}'', ''{"done":true}'', ''{"error":"model xyz not found"}''] None)
     example_request) \<and>
   stream_lines (stream_response example_config
     (ok_response [''{"done":false}'', ''{"done":true}'', ''{"error":"model xyz not found"}''] None)
     example_request) =
   [''{"done":false}'', ''{"done":true}'', error_line (not_found_message ''xyz'')]\<close>
proof -
  let ?evs = \<open>stream_response example_config
     (ok_response [''{"done":false}'', ''{"done":true}'', ''{"error":"model xyz not found"}''] None)
     example_request\<close>
  have e: \<open>?evs = [Line ''{"done":false}'', Line ''{"done":true}'', ErrorEvent (not_found_message ''xyz'')]\<close>
    by code_simp
  then have i: \<open>is_error (?evs ! 2)\<close> and l: \<open>2 < length ?evs\<close>
    by (simp_all add: is_error_def)
  have n: \<open>list_all (\<lambda>e. nl \<notin> set (event_line e)) ?evs\<close> by code_simp
  have m: \<open>map event_line ?evs =
      [''{"done":false}'', ''{"done":true}'', error_line (not_found_message ''xyz'')]\<close>
    unfolding e by (simp add: event_line_def)
  from error_chunk_at_most_once_and_last [of example_config _ example_request]
  have a: \<open>\<forall>i < length ?evs. is_error (?evs ! i) \<longrightarrow> Suc i = length ?evs\<close>
    and b: \<open>list_all (\<lambda>e. nl \<notin> set (event_line e)) ?evs \<longrightarrow>
       stream_lines ?evs = map event_line ?evs\<close>
    by blast+
  from a i l have \<open>Suc 2 = length ?evs\<close> by blast
  moreover from b n m have \<open>stream_lines ?evs =
      [''{"done":false}'', ''{"done":true}'', error_line (not_found_message ''xyz'')]\<close>
    by simp
  ultimately show ?thesis using e by blast
qed

text \<open>
  An error chunk is not always one line. The message is put between the quotes as it
  is, so a backend error whose text holds a quote, a brace and a line feed makes the
  relay yield one chunk that is two lines of the stream, each the text of a JSON object
  with an \<^verbatim>\<open>error\<close> member: the stream has two error lines of the relay, and the first
  is not the last line.
\<close>

theorem one_error_chunk_two_error_lines:
  \<open>json_loads (''{"error":"a'' @ [bs, dq] @ ''}'' @ [bs] @ ''n{'' @ [bs, dq] @ ''error'' @
       [bs, dq] @ '': '' @ [bs, dq] @ ''b"}'') =
     Some (PDict [(''error'', PStr (''a"}'' @ [nl] @ ''{"error": "b''))]) \<and>
   stream_response example_config
     (ok_response [''{"error":"a'' @ [bs, dq] @ ''}'' @ [bs] @ ''n{'' @ [bs, dq] @ ''error'' @
       [bs, dq] @ '': '' @ [bs, dq] @ ''b"}''] None) example_request =
     [ErrorEvent (''a"}'' @ [nl] @ ''{"error": "b'')] \<and>
   stream_lines (stream_response example_config
     (ok_response [''{"error":"a'' @ [bs, dq] @ ''}'' @ [bs] @ ''n{'' @ [bs, dq] @ ''error'' @
       [bs, dq] @ '': '' @ [bs, dq] @ ''b"}''] None) example_request) =
     [''{"error": "a"}'', ''{"error": "b"}''] \<and>
   json_loads ''{"error": "a"}'' = Some (PDict [(''error'', PStr ''a'')]) \<and>
   json_loads ''{"error": "b"}'' = Some (PDict [(''error'', PStr ''b'')])\<close>
  by code_simp

text \<open>
  C2. The model of the outbound request is the default when the request's model is empty,
  blank or, in any case of letters, \<^verbatim>\<open>string\<close>, and the stripped model otherwise
  (\<open>resolve_model_rule\<close>). The comparison with \<^verbatim>\<open>string\<close> is made before the model is
  stripped, so the placeholder with a blank around it is forwarded as the placeholder:
  the relay, whose comment at line 131 says that the name is not the placeholder, sends
  \<^verbatim>\<open>string\<close> to the backend.
\<close>

lemma resolve_model_rule:
  "req_model (ollama_request cfg request) =
     (if model request = [] \<or> strip (model request) = [] \<or> lower (model request) = ''string''
      then default_model cfg else strip (model request))"
  by (simp add: ollama_request_def resolve_model_def)

theorem sentinel_forwarded:
  \<open>req_model (ollama_request example_config (example_request\<lparr>model := '' string''\<rparr>)) = ''string''\<close>
  by code_simp

text \<open>
  C3. A line that is the text of a JSON number (or of \<^verbatim>\<open>true\<close>, \<^verbatim>\<open>false\<close>, \<^verbatim>\<open>null\<close>) has
  no \<^verbatim>\<open>error\<close> member, and the relay does not pass it on: \<^verbatim>\<open>"error" in line_data\<close>
  raises \<^verbatim>\<open>TypeError\<close>, which the inner \<^verbatim>\<open>try\<close> does not catch, and the handler at
  line 212 goes on to the next line.
\<close>

theorem scalar_line_dropped:
  \<open>json_loads ''42'' = Some (PInt 42) \<and>
   py_in ''error'' (PInt 42) = Inl TypeError \<and>
   stream_response example_config (ok_response [''42''] None) example_request = []\<close>
  by code_simp

text \<open>
  C4. A line that is a JSON object whose \<^verbatim>\<open>error\<close> member is a string is answered by
  one error line, chosen by the first rule that applies, and nothing after it is read:
  the retry guidance when the text has \<^verbatim>\<open>timed out waiting for llama runner\<close> in these
  very letters, or \<^verbatim>\<open>timeout\<close> in any case of letters; else the install guidance
  when, in any case of letters, it has \<^verbatim>\<open>model\<close> and one of \<^verbatim>\<open>not found\<close> and
  \<^verbatim>\<open>does not exist\<close>; else the text itself.
\<close>

theorem in_stream_error_translation:
  assumes "line \<noteq> []" and "json_loads line = Some (PDict d)"
    and "map_of d ''error'' = Some (PStr e)"
  shows "relay_lines m (line # rest) failure =
           ([ErrorEvent
               (if contains e ''timed out waiting for llama runner'' \<or> contains (lower e) ''timeout''
                then timeout_message m
                else if contains (lower e) ''model'' \<and>
                        (contains (lower e) ''not found'' \<or> contains (lower e) ''does not exist'')
                then not_found_message m
                else e)], None)"
proof -
  from assms(3) have "(''error'', PStr e) \<in> set d" by (rule map_of_SomeD)
  then have k: "''error'' \<in> fst ` set d" by force
  have "inspect_error m (PDict d) =
          Inr (Some (if contains e ''timed out waiting for llama runner'' \<or> contains (lower e) ''timeout''
                then timeout_message m
                else if contains (lower e) ''model'' \<and>
                        (contains (lower e) ''not found'' \<or> contains (lower e) ''does not exist'')
                then not_found_message m
                else e))"
  proof (cases "contains e ''timed out waiting for llama runner''")
    case True
    with k assms(3) show ?thesis by (simp add: inspect_error_def)
  next
    case False
    with k assms(3) show ?thesis by (auto simp add: inspect_error_def py_str_def)
  qed
  with assms(1,2) show ?thesis by (simp add: process_line_def)
qed

theorem in_stream_error_translation_witness:
  \<open>relay_lines ''xyz'' [''{"error":"model xyz not found"}'', ''{"done":true}''] (Some TimeoutException) =
     ([ErrorEvent (not_found_message ''xyz'')], None)\<close>
proof -
  have a: \<open>json_loads ''{"error":"model xyz not found"}'' = Some (PDict [(''error'', PStr ''model xyz not found'')])\<close>
    by code_simp
  have b: \<open>\<not> contains ''model xyz not found'' ''timed out waiting for llama runner''\<close>
    by code_simp
  have c: \<open>\<not> contains (lower ''model xyz not found'') ''timeout''\<close> by code_simp
  have d: \<open>contains (lower ''model xyz not found'') ''model''\<close> by code_simp
  have e: \<open>contains (lower ''model xyz not found'') ''not found''\<close> by code_simp
  show ?thesis
    using in_stream_error_translation [OF _ a, of "''model xyz not found''" "''xyz''"
        \<open>[''{"done":true}'']\<close> \<open>Some TimeoutException\<close>] b c d e
    by simp
qed

text \<open>
  The first rule is not case-insensitive: the phrase in capitals is answered by the
  error text itself, not by the retry guidance.
\<close>

theorem first_rule_is_case_sensitive:
  \<open>contains (lower ''TIMED OUT WAITING FOR LLAMA RUNNER'') ''timed out waiting for llama runner'' \<and>
   relay_lines ''xyz'' [''{"error":"TIMED OUT WAITING FOR LLAMA RUNNER"}''] None =
     ([ErrorEvent ''TIMED OUT WAITING FOR LLAMA RUNNER''], None) \<and>
   ''TIMED OUT WAITING FOR LLAMA RUNNER'' \<noteq> timeout_message ''xyz''\<close>
  by code_simp






text \<open>
  C6. The outbound request has as many messages as the request, in the same order and
  with the same roles; the content of a \<^verbatim>\<open>user\<close> message at index \<open>i\<close> is the normalizer's
  result on its content and the messages before it (none at index 0), and a message of
  any other role is unchanged.
\<close>

theorem message_preparation_frame:
  "length (req_messages (ollama_request cfg request)) = length (messages request) \<and>
   (\<forall>i < length (messages request).
      role (req_messages (ollama_request cfg request) ! i) = role (messages request ! i) \<and>
      (if role (messages request ! i) = ''user''
       then content (req_messages (ollama_request cfg request) ! i) =
              fine_tune_user_message (content (messages request ! i))
                (if i = 0 then None else Some (take i (messages request)))
       else req_messages (ollama_request cfg request) ! i = messages request ! i))"
  by (simp add: ollama_request_def fine_tuned_messages_def nth_enumerate_eq)

theorem message_preparation_frame_witness:
  "req_messages (ollama_request example_config example_request) =
     [\<lparr>role = ''system'', content = ''be brief''\<rparr>,
      \<lparr>role = ''user'', content = ''Whats the time?''\<rparr>,
      \<lparr>role = ''assistant'', content = ''noon''\<rparr>] \<and>
   content (req_messages (ollama_request example_config example_request) ! 1) =
     fine_tune_user_message ''whats the time'' (Some [\<lparr>role = ''system'', content = ''be brief''\<rparr>]) \<and>
   req_messages (ollama_request example_config example_request) ! 2 = \<lparr>role = ''assistant'', content = ''noon''\<rparr>"
proof -
  have a: "req_messages (ollama_request example_config example_request) =
     [\<lparr>role = ''system'', content = ''be brief''\<rparr>,
      \<lparr>role = ''user'', content = ''Whats the time?''\<rparr>,
      \<lparr>role = ''assistant'', content = ''noon''\<rparr>]" by code_simp
  have m: "messages example_request = [\<lparr>role = ''system'', content = ''be brief''\<rparr>,
                  \<lparr>role = ''user'', content = ''whats the time''\<rparr>,
                  \<lparr>role = ''assistant'', content = ''noon''\<rparr>]"
    by (simp add: example_request_def)
  from message_preparation_frame [of example_config example_request]
  have f: "\<forall>i < length (messages example_request).
      (if role (messages example_request ! i) = ''user''
       then content (req_messages (ollama_request example_config example_request) ! i) =
              fine_tune_user_message (content (messages example_request ! i))
                (if i = 0 then None else Some (take i (messages example_request)))
       else req_messages (ollama_request example_config example_request) ! i = messages example_request ! i)"
    by blast
  from f [rule_format, of 1] m
  have b: "content (req_messages (ollama_request example_config example_request) ! 1) =
     fine_tune_user_message ''whats the time'' (Some [\<lparr>role = ''system'', content = ''be brief''\<rparr>])"
    by simp
  from f [rule_format, of 2] m
  have c: "req_messages (ollama_request example_config example_request) ! 2 = \<lparr>role = ''assistant'', content = ''noon''\<rparr>"
    by simp
  from a b c show ?thesis by blast
qed

text \<open>
  C10. The normalizer's result does not depend on the prior messages, and the stage that
  reads them returns its input.
\<close>

theorem normalizer_ignores_context:
  "fine_tune_user_message message_content ctx1 = fine_tune_user_message message_content ctx2 \<and>
   add_context ctx1 t = t"
  by (simp add: fine_tune_user_message_def add_context_def split: option.splits)

theorem normalizer_ignores_context_witness:
  "fine_tune_user_message ''explain this''
      (Some [\<lparr>role = ''user'', content = ''hi''\<rparr>, \<lparr>role = ''assistant'', content = ''hello''\<rparr>]) =
   fine_tune_user_message ''explain this'' None \<and>
   fine_tune_user_message ''explain this'' None = ''Explain this''"
proof -
  have "fine_tune_user_message ''explain this'' None = ''Explain this''"
    by code_simp
  with normalizer_ignores_context [of "''explain this''"
      "Some [\<lparr>role = ''user'', content = ''hi''\<rparr>, \<lparr>role = ''assistant'', content = ''hello''\<rparr>]" None]
  show ?thesis by simp
qed

section \<open>Properties of the normalizer\<close>

lemma isspace_not_alnum: "isspace c \<Longrightarrow> \<not> isalnum c"
  by (auto simp: isspace_def isalnum_def isalpha_def isupper_def islower_def isdigit_def Let_def)

lemma strip_empty_all_space:
  assumes "strip s = []"
  shows "\<forall>c \<in> set s. isspace c"
proof -
  from assms have "dropWhile isspace (rev (dropWhile isspace s)) = []"
    by (simp add: strip_def rstrip_def lstrip_def)
  then have a: "\<forall>c \<in> set (dropWhile isspace s). isspace c"
    by (simp add: dropWhile_eq_Nil_conv)
  have "dropWhile isspace s = []"
  proof (cases "dropWhile isspace s")
    case Nil
    then show ?thesis .
  next
    case (Cons x xs)
    then have "\<not> isspace x" by (metis hd_dropWhile list.sel(1) list.distinct(1))
    moreover from Cons a have "isspace x" by simp
    ultimately show ?thesis by simp
  qed
  then show ?thesis by (simp add: dropWhile_eq_Nil_conv)
qed

lemma endswith_single: "endswith s [c] = (s \<noteq> [] \<and> last s = c)"
proof (cases s rule: rev_cases)
  case Nil
  then show ?thesis by (simp add: endswith_def)
next
  case (snoc ys y)
  then show ?thesis by (auto simp: endswith_def)
qed

lemma sentence_ending_cases:
  "sentence_ending t =
     (if t \<noteq> [] \<and> isalnum (last t) \<and> \<not> list_ex (\<lambda>word. contains (lower t) word) question_words
      then t @ ''.'' else t)"
  by (simp add: sentence_ending_def)

lemma dot_not_alnum: "\<not> isalnum (CHR ''.'')"
  by (simp add: isalnum_def isalpha_def isupper_def islower_def isdigit_def)

text \<open>
  C8. Step 7 appends a period to a message that reaches it non-empty, with an
  alphanumeric last character and with none of the question words of step 3 occurring in
  it, in any case of letters, as a substring; so a result of the normalizer in which no
  question word occurs as a substring does not end in an alphanumeric character.
\<close>

theorem period_appended_without_question_word:
  "(t \<noteq> [] \<and> isalnum (last t) \<and> \<not> list_ex (\<lambda>word. contains (lower t) word) question_words
      \<longrightarrow> sentence_ending t = t @ ''.'') \<and>
   (\<not> list_ex (\<lambda>word. contains (lower (fine_tune_user_message m ctx)) word) question_words
      \<longrightarrow> fine_tune_user_message m ctx = [] \<or> \<not> isalnum (last (fine_tune_user_message m ctx)))"
proof (intro conjI impI)
  assume "t \<noteq> [] \<and> isalnum (last t) \<and> \<not> list_ex (\<lambda>word. contains (lower t) word) question_words"
  then show "sentence_ending t = t @ ''.''" by (simp add: sentence_ending_def)
next
  let ?r = "fine_tune_user_message m ctx"
  assume nq: "\<not> list_ex (\<lambda>word. contains (lower ?r) word) question_words"
  show "?r = [] \<or> \<not> isalnum (last ?r)"
  proof (cases "m = [] \<or> strip m = []")
    case True
    then have r: "?r = m" by (simp add: fine_tune_user_message_def)
    show ?thesis
    proof (cases "m = []")
      case True
      with r show ?thesis by simp
    next
      case False
      with True have "strip m = []" by simp
      then have "\<forall>c \<in> set m. isspace c" by (rule strip_empty_all_space)
      with False have "isspace (last m)" by simp
      with r show ?thesis by (simp add: isspace_not_alnum)
    qed
  next
    case False
    define u where "u = capitalize_first (normalize_whitespace (add_context ctx
        (question_formatting (add_clarity (fix_typos (strip m))))))"
    from False have r: "?r = sentence_ending u"
      by (simp add: fine_tune_user_message_def u_def)
    show ?thesis
    proof (cases "u \<noteq> [] \<and> isalnum (last u)")
      case False
      then have "sentence_ending u = u" by (simp add: sentence_ending_def)
      with r False show ?thesis by auto
    next
      case True
      show ?thesis
      proof (cases "list_ex (\<lambda>word. contains (lower u) word) question_words")
        case True
        then have "sentence_ending u = u" by (simp add: sentence_ending_def)
        with r True nq show ?thesis by simp
      next
        case False
        with True have "sentence_ending u = u @ ''.''" by (simp add: sentence_ending_def)
        with r show ?thesis by (simp add: dot_not_alnum)
      qed
    qed
  qed
qed

theorem period_appended_without_question_word_witness:
  "fine_tune_user_message ''fix bug'' None = ''Please explain: fix bug.'' \<and>
   sentence_ending ''Please explain: fix bug'' = ''Please explain: fix bug.'' \<and>
   \<not> isalnum (last (fine_tune_user_message ''fix bug'' None))"
proof -
  have a: "fine_tune_user_message ''fix bug'' None = ''Please explain: fix bug.''" by code_simp
  have b: "\<not> list_ex (\<lambda>word. contains (lower ''Please explain: fix bug.'') word) question_words"
    by code_simp
  have c: "''Please explain: fix bug'' \<noteq> [] \<and> isalnum (last ''Please explain: fix bug'') \<and>
     \<not> list_ex (\<lambda>word. contains (lower ''Please explain: fix bug'') word) question_words"
    by code_simp
  from period_appended_without_question_word [of "''Please explain: fix bug''" "''fix bug''" None] a b c
  show ?thesis by simp
qed

text \<open>
  The test of step 7 is on substrings, not on the first token: \<^verbatim>\<open>this is fine\<close> does
  not start with a question word and gets no period, since \<^verbatim>\<open>is\<close> occurs in it.
\<close>

theorem statement_with_question_word_inside:
  "fine_tune_user_message ''this is fine'' None = ''This is fine'' \<and>
   sentence_ending ''This is fine'' = ''This is fine'' \<and>
   lower (hd (split ''This is fine'')) \<notin> set question_words \<and>
   isalnum (last ''This is fine'')"
  by code_simp

lemma collapse_ws_snoc:
  "\<not> isspace c \<Longrightarrow> collapse_ws (x @ [c]) = collapse_ws x @ [c]"
proof (induction x rule: collapse_ws.induct)
  case 1
  then show ?case by simp
next
  case (2 a cs)
  show ?case
  proof (cases "isspace a")
    case True
    have "dropWhile isspace (cs @ [c]) = dropWhile isspace cs @ [c]"
      using 2(3) by (induction cs) auto
    with 2(1) [OF True 2(3)] True show ?thesis by simp
  next
    case False
    with 2(2) [OF False 2(3)] show ?thesis by simp
  qed
qed

lemma strip_snoc:
  assumes "\<not> isspace c"
  shows "strip (y @ [c]) = lstrip y @ [c]"
proof -
  have "dropWhile isspace (y @ [c]) = dropWhile isspace y @ [c]"
    using assms by (induction y) auto
  then show ?thesis
    using assms by (simp add: strip_def lstrip_def rstrip_def)
qed

lemma qmark_props: "\<not> isspace (CHR ''?'')" "\<not> isalpha (CHR ''?'')" "\<not> isalnum (CHR ''?'')"
  by (simp_all add: isspace_def isalnum_def isalpha_def isupper_def islower_def isdigit_def)

lemma capitalize_first_snoc:
  assumes "\<not> isalpha c"
  shows "capitalize_first (z @ [c]) = capitalize_first z @ [c]"
  using assms by (cases z) (simp_all add: capitalize_first_def)

lemma last_collapse_ws:
  "y \<noteq> [] \<Longrightarrow> last (collapse_ws y) = (if isspace (last y) then CHR '' '' else last y)"
proof (induction y rule: collapse_ws.induct)
  case 1
  then show ?case by simp
next
  case (2 a cs)
  show ?case
  proof (cases "isspace a")
    case True
    show ?thesis
    proof (cases "dropWhile isspace cs = []")
      case e: True
      then have "\<forall>x \<in> set cs. isspace x" by (simp add: dropWhile_eq_Nil_conv)
      then have "isspace (last (a # cs))" using True by (cases "cs = []") simp_all
      moreover have "collapse_ws (a # cs) = '' ''" using True unfolding collapse_ws.simps e by simp
      ultimately show ?thesis by simp
    next
      case False
      then obtain z zs where d: "dropWhile isspace cs = z # zs" by (cases "dropWhile isspace cs") auto
      have "cs = takeWhile isspace cs @ dropWhile isspace cs" by simp
      then have "last cs = last (dropWhile isspace cs)" using False by (metis last_appendR)
      moreover from False have "cs \<noteq> []" by auto
      moreover have "collapse_ws (dropWhile isspace cs) \<noteq> []" unfolding d by simp
      ultimately show ?thesis using 2(1) [OF True False] True by simp
    qed
  next
    case False
    show ?thesis
    proof (cases "cs = []")
      case True
      with False show ?thesis by simp
    next
      case ne: False
      then have "collapse_ws cs \<noteq> []" by (cases cs) simp_all
      with 2(2) [OF False ne] False ne show ?thesis by simp
    qed
  qed
qed

lemma last_rstrip_chars:
  assumes "rstrip_chars chars t \<noteq> []"
  shows "last (rstrip_chars chars t) \<notin> set chars"
proof -
  let ?d = "dropWhile (\<lambda>c. c \<in> set chars) (rev t)"
  from assms have ne: "?d \<noteq> []" by (simp add: rstrip_chars_def)
  then have "hd ?d \<notin> set chars" by (rule hd_dropWhile)
  with ne show ?thesis by (simp add: rstrip_chars_def last_rev)
qed

lemma last_upper_char:
  assumes "isalpha a" and "ascii x" and "\<not> isalpha x"
  shows "last (upper_char a) \<noteq> x"
proof -
  let ?n = "of_char a :: nat"
  consider "97 \<le> ?n \<and> ?n \<le> 122" | "?n = 128" | "\<not> (97 \<le> ?n \<and> ?n \<le> 122) \<and> ?n \<noteq> 128"
    by blast
  then show ?thesis
  proof cases
    case 1
    then have n: "97 \<le> ?n" "?n \<le> 122" by simp_all
    then have m: "(?n - 32) mod 256 = ?n - 32" by simp
    have "65 \<le> ?n - 32" "?n - 32 \<le> 90" using n by arith+
    then have "isupper (char_of (?n - 32))" using m by (simp add: isupper_def Let_def)
    then have "isalpha (last (upper_char a))" using n by (simp add: upper_char_def isalpha_def Let_def)
    with assms(3) show ?thesis by auto
  next
    case 2
    then have "last (upper_char a) = CHR 0x81" by (simp add: upper_char_def Let_def)
    moreover have "\<not> ascii (CHR 0x81)" by (simp add: ascii_def)
    ultimately show ?thesis using assms(2) by auto
  next
    case 3
    then have "last (upper_char a) = a" by (auto simp: upper_char_def Let_def)
    with assms(1,3) show ?thesis by auto
  qed
qed

lemma last_capitalize_first:
  assumes "v \<noteq> []" and "ascii x" and "\<not> isalpha x" and "last v \<noteq> x"
  shows "capitalize_first v \<noteq> [] \<and> last (capitalize_first v) \<noteq> x"
proof (cases "\<not> isupper (hd v) \<and> isalpha (hd v)")
  case False
  with assms show ?thesis by (auto simp: capitalize_first_def)
next
  case True
  from assms(1) obtain a as where v: "v = a # as" by (cases v) auto
  have u: "upper_char a \<noteq> []" by (simp add: upper_char_def Let_def)
  from True v have c: "capitalize_first v = upper_char a @ as" by (simp add: capitalize_first_def)
  show ?thesis
  proof (cases "as = []")
    case True
    with c u last_upper_char [OF _ assms(2,3), of a] \<open>\<not> isupper (hd v) \<and> isalpha (hd v)\<close> v
    show ?thesis by simp
  next
    case False
    with c v assms(4) show ?thesis by simp
  qed
qed

lemma endswith_two: "endswith (p @ [c]) [d, c] = (p \<noteq> [] \<and> last p = d)"
proof (cases p rule: rev_cases)
  case Nil
  then show ?thesis by (simp add: endswith_def)
next
  case (snoc ys y)
  then show ?thesis by (auto simp: endswith_def)
qed

text \<open>
  C7. A message that reaches step 3 (after trimming, the typo repairs of step 1 and the
  clarification of step 2) beginning, in any case of letters, with one of the question
  words, and ending neither in \<^verbatim>\<open>?\<close> nor in \<^verbatim>\<open>.\<close>, loses its trailing \<^verbatim>\<open>.\<close> and \<^verbatim>\<open>!\<close>
  characters and is given a \<^verbatim>\<open>?\<close>: the result of the normalizer is this text with its
  blanks normalized and its first letter capitalized, it ends in \<^verbatim>\<open>?\<close>, and the
  character before the \<^verbatim>\<open>?\<close> is neither \<^verbatim>\<open>.\<close> nor \<^verbatim>\<open>!\<close>.
\<close>

theorem question_mark_appended:
  assumes "strip m \<noteq> []"
    and "t = add_clarity (fix_typos (strip m))"
    and "list_ex (\<lambda>word. startswith (lower t) word) question_words"
    and "\<not> endswith t ''?''" and "\<not> endswith t ''.''"
  shows "fine_tune_user_message m ctx =
           capitalize_first (normalize_whitespace (rstrip_chars ''.!'' t @ ''?'')) \<and>
         endswith (fine_tune_user_message m ctx) ''?'' \<and>
         \<not> endswith (fine_tune_user_message m ctx) ''.?'' \<and>
         \<not> endswith (fine_tune_user_message m ctx) ''!?''"
proof -
  let ?r = "fine_tune_user_message m ctx"
  define y where "y = rstrip_chars ''.!'' t"
  define v where "v = lstrip (collapse_ws y)"
  from assms(1) have ne: "m \<noteq> []" by (auto simp: strip_def rstrip_def lstrip_def)
  from assms(3,4,5) have q: "question_formatting t = y @ ''?''"
    by (simp add: question_formatting_def y_def)
  have c: "add_context ctx (question_formatting t) = y @ ''?''"
    using q by (simp add: add_context_def split: option.splits)
  have n: "normalize_whitespace (y @ ''?'') = v @ ''?''"
    by (simp add: normalize_whitespace_def v_def collapse_ws_snoc strip_snoc qmark_props)
  have k: "capitalize_first (v @ ''?'') = capitalize_first v @ ''?''"
    by (rule capitalize_first_snoc) (rule qmark_props)
  have "sentence_ending (capitalize_first v @ ''?'') = capitalize_first v @ ''?''"
    by (simp add: sentence_ending_def qmark_props)
  with ne assms(1,2) c n k
  have r: "?r = capitalize_first v @ ''?''"
    and e: "?r = capitalize_first (normalize_whitespace (y @ ''?''))"
    by (simp_all add: fine_tune_user_message_def)
  have p: "ascii (CHR ''.'')" "\<not> isalpha (CHR ''.'')" "ascii (CHR ''!'')" "\<not> isalpha (CHR ''!'')"
    by (simp_all add: ascii_def isalpha_def isupper_def islower_def)
  have l: "capitalize_first v = [] \<or>
      (last (capitalize_first v) \<noteq> CHR ''.'' \<and> last (capitalize_first v) \<noteq> CHR ''!'')"
  proof (cases "v = []")
    case True
    then show ?thesis by (simp add: capitalize_first_def)
  next
    case False
    then have cy: "dropWhile isspace (collapse_ws y) \<noteq> []" by (simp add: v_def lstrip_def)
    then have yn: "y \<noteq> []" by auto
    have "collapse_ws y = takeWhile isspace (collapse_ws y) @ v" by (simp add: v_def lstrip_def)
    then have "last v = last (collapse_ws y)" using False by (metis last_appendR)
    also have "\<dots> = (if isspace (last y) then CHR '' '' else last y)"
      using yn by (rule last_collapse_ws)
    finally have lv: "last v = (if isspace (last y) then CHR '' '' else last y)" .
    from last_rstrip_chars [of "''.!''" t] yn
    have "last y \<noteq> CHR ''.''" "last y \<noteq> CHR ''!''" by (simp_all add: y_def)
    with lv have "last v \<noteq> CHR ''.''" "last v \<noteq> CHR ''!''" by (simp_all split: if_splits)
    with last_capitalize_first [OF False p(1,2)] last_capitalize_first [OF False p(3,4)]
    show ?thesis by simp
  qed
  have "endswith ?r ''?''" using r by (simp add: endswith_single)
  moreover have "\<not> endswith ?r ''.?''" using l unfolding r by (auto simp: endswith_two)
  moreover have "\<not> endswith ?r ''!?''" using l unfolding r by (auto simp: endswith_two)
  ultimately show ?thesis using e by (simp add: y_def)
qed

theorem question_mark_appended_witness:
  "fine_tune_user_message ''what is this!'' None = ''What is this?'' \<and>
   fine_tune_user_message ''what is this!'' None =
     capitalize_first (normalize_whitespace (rstrip_chars ''.!'' ''what is this!'' @ ''?'')) \<and>
   \<not> endswith (fine_tune_user_message ''what is this!'' None) ''!?'' \<and>
   fine_tune_user_message ''whats the time'' None = ''Whats the time?'' \<and>
   endswith (fine_tune_user_message ''whats the time'' None) ''?''"
proof -
  have a: "strip ''what is this!'' \<noteq> []" by code_simp
  have b: "add_clarity (fix_typos (strip ''what is this!'')) = ''what is this!''" by code_simp
  have c: "list_ex (\<lambda>word. startswith (lower ''what is this!'') word) question_words" by code_simp
  have d: "\<not> endswith ''what is this!'' ''?''" "\<not> endswith ''what is this!'' ''.''" by code_simp+
  have e: "fine_tune_user_message ''what is this!'' None = ''What is this?''" by code_simp
  have a': "strip ''whats the time'' \<noteq> []" by code_simp
  have b': "add_clarity (fix_typos (strip ''whats the time'')) = ''whats the time''" by code_simp
  have c': "list_ex (\<lambda>word. startswith (lower ''whats the time'') word) question_words" by code_simp
  have d': "\<not> endswith ''whats the time'' ''?''" "\<not> endswith ''whats the time'' ''.''" by code_simp+
  have e': "fine_tune_user_message ''whats the time'' None = ''Whats the time?''" by code_simp
  from question_mark_appended [OF a b [symmetric] c d, of None]
       question_mark_appended [OF a' b' [symmetric] c' d', of None] e e'
  show ?thesis by blast
qed

text \<open>
  A message of fewer than three tokens is given the prefix \<^verbatim>\<open>Please explain: \<close> by step 2
  before step 3 looks at its start, so it gets no question mark although its first token
  is a question word.
\<close>

theorem short_question_gets_prefix_not_mark:
  "lower (hd (split ''what now'')) \<in> set question_words \<and>
   \<not> endswith ''what now'' ''?'' \<and> \<not> endswith ''what now'' ''.'' \<and>
   fine_tune_user_message ''what now'' None = ''Please explain: what now'' \<and>
   \<not> endswith (fine_tune_user_message ''what now'' None) ''?''"
  by code_simp

section \<open>Normalizing a normalized question\<close>

text \<open>
  The typo repairs of step 1 leave a text in which no word is one that they rewrite and
  in which the phrase of the last repair does not occur; the later steps keep both, so
  step 1 finds nothing to rewrite in the result of the normalizer.
\<close>

lemma is_word_not_space: "is_word c \<Longrightarrow> \<not> isspace c"
  by (auto simp: is_word_def isspace_def isalnum_def isalpha_def isupper_def islower_def isdigit_def Let_def)

lemma takeWhile_append_sep:
  "\<not> P d \<Longrightarrow> takeWhile P (xs @ d # b) = takeWhile P xs"
  by (induction xs) auto

lemma dropWhile_append_sep:
  "\<not> P d \<Longrightarrow> dropWhile P (xs @ d # b) = dropWhile P xs @ d # b"
  by (induction xs) auto

lemma words_append_sep:
  "\<not> is_word d \<Longrightarrow> words (a @ d # b) = words a @ words b"
proof (induction a rule: words.induct)
  case 1
  then show ?case by simp
next
  case (2 c cs)
  then show ?case by (simp add: takeWhile_append_sep dropWhile_append_sep)
qed

lemma words_nonword: "\<forall>c \<in> set j. \<not> is_word c \<Longrightarrow> words j = []"
  by (induction j) auto

lemma words_snoc_nonword:
  assumes "\<forall>c \<in> set j. \<not> is_word c"
  shows "words (a @ j) = words a"
proof (cases j)
  case Nil
  then show ?thesis by simp
next
  case (Cons d j')
  with assms have "\<not> is_word d" "words j' = []" by (simp_all add: words_nonword)
  with Cons show ?thesis by (simp add: words_append_sep)
qed

lemma words_prepend_nonword:
  "\<forall>c \<in> set j. \<not> is_word c \<Longrightarrow> words (j @ a) = words a"
  by (induction j) auto

lemma words_wordlike:
  "w \<in> set (words s) \<Longrightarrow> w \<noteq> [] \<and> (\<forall>c \<in> set w. is_word c)"
proof (induction s rule: words.induct)
  case 1
  then show ?case by simp
next
  case (2 c cs)
  show ?case
  proof (cases "is_word c")
    case False
    with 2 show ?thesis by simp
  next
    case True
    with 2(3) have "w = c # takeWhile is_word cs \<or> w \<in> set (words (dropWhile is_word cs))"
      by simp
    then show ?thesis
    proof
      assume w: "w = c # takeWhile is_word cs"
      have "\<forall>x \<in> set (takeWhile is_word cs). is_word x"
        by (blast dest: set_takeWhileD)
      with w True show ?thesis by simp
    next
      assume "w \<in> set (words (dropWhile is_word cs))"
      with 2(1) [OF True] show ?thesis .
    qed
  qed
qed

lemma words_of_word:
  assumes "w \<noteq> []" and "\<forall>c \<in> set w. is_word c"
  shows "words w = [w]"
proof -
  from assms obtain c cs where w: "w = c # cs" by (cases w) auto
  with assms have "takeWhile is_word cs = cs" "dropWhile is_word cs = []"
    by (simp_all add: takeWhile_eq_all_conv dropWhile_eq_Nil_conv)
  with w assms show ?thesis by (simp del: dropWhile_eq_Nil_conv)
qed

lemma sub_words_head_nonword:
  "\<not> is_word d \<Longrightarrow> sub_words f (d # b) = d # sub_words f b"
  by simp

lemma words_sub_words:
  "words (sub_words f s) = concat (map (\<lambda>w. words (f w)) (words s))"
proof (induction f s rule: sub_words.induct)
  case (1 f)
  then show ?case by simp
next
  case (2 f c cs)
  show ?case
  proof (cases "is_word c")
    case False
    with 2 show ?thesis by simp
  next
    case True
    let ?w = "c # takeWhile is_word cs"
    let ?r = "dropWhile is_word cs"
    have "words (f ?w @ sub_words f ?r) = words (f ?w) @ words (sub_words f ?r)"
    proof (cases ?r)
      case Nil
      show ?thesis unfolding Nil by simp
    next
      case (Cons d r')
      then have "\<not> is_word d" by (metis hd_dropWhile list.sel(1) list.distinct(1))
      then show ?thesis unfolding Cons by (simp add: words_append_sep)
    qed
    with True 2(1) [OF True] show ?thesis by simp
  qed
qed

lemma sub_words_id:
  "\<forall>w \<in> set (words s). f w = w \<Longrightarrow> sub_words f s = s"
proof (induction f s rule: sub_words.induct)
  case (1 f)
  then show ?case by simp
next
  case (2 f c cs)
  show ?case
  proof (cases "is_word c")
    case False
    with 2 show ?thesis by simp
  next
    case True
    with 2(3) have "f (c # takeWhile is_word cs) = c # takeWhile is_word cs"
      and "\<forall>w \<in> set (words (dropWhile is_word cs)). f w = w" by simp_all
    with True 2(1) [OF True] show ?thesis by simp
  qed
qed


lemma starts_sep_simps [simp]:
  "starts_sep []" "starts_sep (c # cs) = (\<not> is_word c)"
  by (simp_all add: starts_sep_def)

lemma starts_sep_dropWhile [simp]: "starts_sep (dropWhile is_word s)"
  by (induction s) auto

lemma takeWhile_all_append:
  "\<forall>x \<in> set a. is_word x \<Longrightarrow> starts_sep z \<Longrightarrow> takeWhile is_word (a @ z) = a"
  by (cases z) (simp_all add: takeWhile_append_sep)

lemma dropWhile_all_append:
  "\<forall>x \<in> set a. is_word x \<Longrightarrow> starts_sep z \<Longrightarrow> dropWhile is_word (a @ z) = z"
  by (cases z) (simp_all add: dropWhile_append_sep)

lemma words_word_append:
  assumes "is_word c" and "\<forall>x \<in> set a. is_word x" and "starts_sep z"
  shows "words ((c # a) @ z) = (c # a) # words z"
proof -
  from assms have t: "takeWhile is_word (a @ z) = a" "dropWhile is_word (a @ z) = z"
    by (simp_all only: takeWhile_all_append dropWhile_all_append)
  show ?thesis by (simp only: append_Cons words.simps t assms(1) if_True)
qed

lemma sub_phrase_starts_sep: "starts_sep s \<Longrightarrow> starts_sep (sub_phrase s)"
  by (cases s) simp_all

lemma words_dropWhile_word: "set (words (dropWhile is_word x)) \<subseteq> set (words x)"
  by (cases x) auto

lemma words_dropWhile_space [simp]: "words (dropWhile isspace x) = words x"
  by (induction x) (auto dest: is_word_not_space)

lemma match_phrase_words:
  assumes "match_phrase s = Some rest"
  shows "set (words rest) \<subseteq> set (words s) \<and> starts_sep rest"
proof -
  from assms have r: "rest = dropWhile is_word (dropWhile isspace (dropWhile is_word
      (dropWhile isspace (dropWhile is_word s))))"
    by (simp add: match_phrase_def Let_def split: if_splits)
  have "set (words rest) \<subseteq> set (words (dropWhile is_word (dropWhile isspace (dropWhile is_word s))))"
    unfolding r using words_dropWhile_word [of "dropWhile isspace (dropWhile is_word
      (dropWhile isspace (dropWhile is_word s)))"] by simp
  also have "\<dots> \<subseteq> set (words (dropWhile is_word s))"
    using words_dropWhile_word [of "dropWhile isspace (dropWhile is_word s)"] by simp
  also have "\<dots> \<subseteq> set (words s)" by (rule words_dropWhile_word)
  finally show ?thesis by (simp add: r)
qed

lemma words_you_are_correct:
  assumes "starts_sep z"
  shows "words (''you are correct'' @ z) = [''you'', ''are'', ''correct''] @ words z"
proof -
  have w: "is_word (CHR ''y'')" "is_word (CHR ''o'')" "is_word (CHR ''u'')" "is_word (CHR ''a'')"
    "is_word (CHR ''r'')" "is_word (CHR ''e'')" "is_word (CHR ''c'')" "is_word (CHR ''t'')"
    "\<not> is_word (CHR '' '')"
    by (simp_all add: is_word_def isalnum_def isalpha_def isupper_def islower_def isdigit_def)
  have "words (''correct'' @ z) = ''correct'' # words z"
    using words_word_append [of "CHR ''c''" "''orrect''" z] assms w by simp
  then show ?thesis using w by simp
qed

lemma words_sub_phrase:
  "set (words (sub_phrase s)) \<subseteq> set (words s) \<union> {''you'', ''are'', ''correct''}"
proof (induction s rule: sub_phrase.induct)
  case 1
  then show ?case by simp
next
  case (2 c cs)
  show ?case
  proof (cases "is_word c")
    case False
    with 2 show ?thesis by simp
  next
    case True
    show ?thesis
    proof (cases "match_phrase (c # cs)")
      case None
      let ?z = "sub_phrase (dropWhile is_word cs)"
      have "starts_sep ?z" by (simp add: sub_phrase_starts_sep)
      then have "words ((c # takeWhile is_word cs) @ ?z) = (c # takeWhile is_word cs) # words ?z"
        using True by (intro words_word_append) (auto dest: set_takeWhileD)
      with None True 2(1) [OF True None] show ?thesis by auto
    next
      case (Some rest)
      from match_phrase_words [OF Some]
      have r: "set (words rest) \<subseteq> set (words (c # cs))" "starts_sep rest" by simp_all
      then have "starts_sep (sub_phrase rest)" by (simp add: sub_phrase_starts_sep)
      then have "words (''you are correct'' @ sub_phrase rest) =
          [''you'', ''are'', ''correct''] @ words (sub_phrase rest)"
        by (rule words_you_are_correct)
      with Some True 2(2) [OF True Some] r(1) show ?thesis by auto
    qed
  qed
qed


lemma all_words_sub_words:
  assumes "all_words Q s"
    and "\<And>w. w \<noteq> [] \<Longrightarrow> \<forall>c \<in> set w. is_word c \<Longrightarrow> Q w \<Longrightarrow> all_words P (f w)"
  shows "all_words P (sub_words f s)"
proof -
  have "P v" if "v \<in> set (words (sub_words f s))" for v
  proof -
    from that obtain w where w: "w \<in> set (words s)" "v \<in> set (words (f w))"
      by (auto simp: words_sub_words)
    from words_wordlike [OF w(1)] assms(1) w(1) have "all_words P (f w)"
      by (intro assms(2)) (auto simp: all_words_def)
    with w(2) show ?thesis by (simp add: all_words_def)
  qed
  then show ?thesis by (simp add: all_words_def)
qed

lemma all_words_of_word:
  "w \<noteq> [] \<Longrightarrow> \<forall>c \<in> set w. is_word c \<Longrightarrow> all_words P w = P w"
  by (simp add: all_words_def words_of_word)

lemma lower_simps [simp]:
  "lower [] = []" "lower (c # cs) = lower_char c # lower cs" "length (lower w) = length w"
  "lower (a @ b) = lower a @ lower b"
  by (simp_all add: lower_def)

lemma lower_tl: "lower (tl w) = tl (lower w)"
  by (cases w) simp_all

lemma contraction_tail:
  "x \<in> set contractions \<Longrightarrow> tl x \<notin> set contractions \<and> 2 \<le> length x"
  by (auto simp: contractions_def)

lemma single_not_contraction: "[c] \<notin> set contractions"
  by (simp add: contractions_def)

lemma apostrophe_not_word: "\<not> is_word (CHR 0x27)"
  by (simp add: is_word_def isalnum_def isalpha_def isupper_def islower_def isdigit_def)

lemma fix_contraction_words:
  assumes "w \<noteq> []" and "\<forall>c \<in> set w. is_word c"
  shows "all_words (avoid contractions) (fix_contraction w)"
proof (cases "lower w \<in> set contractions")
  case False
  with assms show ?thesis by (simp add: fix_contraction_def all_words_of_word avoid_def)
next
  case True
  from contraction_tail [OF True] have t: "tl (lower w) \<notin> set contractions" "2 \<le> length w"
    by simp_all
  then obtain c cs where w: "w = c # cs" "cs \<noteq> []" by (cases w) (auto simp: Suc_le_eq)
  with assms have cs: "\<forall>x \<in> set cs. is_word x" "is_word c" by simp_all
  have "words (c # CHR 0x27 # cs) = [[c], cs]"
    using cs w(2) by (simp add: apostrophe_not_word words_of_word)
  moreover from t(1) w have "lower cs \<notin> set contractions" by simp
  ultimately show ?thesis
    using True w by (simp add: fix_contraction_def all_words_def avoid_def single_not_contraction)
qed

lemma after_contractions: "all_words (avoid contractions) (sub_words fix_contraction s)"
proof (rule all_words_sub_words [where Q = "\<lambda>w. True"])
  show "all_words (\<lambda>w. True) s" by (simp add: all_words_def)
qed (rule fix_contraction_words)

lemma after_fix_word:
  assumes "all_words (avoid B) s"
    and "repl \<noteq> []" and "\<forall>c \<in> set repl. is_word c" and "lower repl \<notin> set (pat # B)"
  shows "all_words (avoid (pat # B)) (sub_words (fix_word pat repl) s)"
proof (rule all_words_sub_words [OF assms(1)])
  fix w :: string
  assume w: "w \<noteq> []" "\<forall>c \<in> set w. is_word c" "avoid B w"
  show "all_words (avoid (pat # B)) (fix_word pat repl w)"
  proof (cases "lower w = pat")
    case True
    with assms(2-4) show ?thesis by (simp add: fix_word_def all_words_of_word avoid_def)
  next
    case False
    with w show ?thesis by (simp add: fix_word_def all_words_of_word avoid_def)
  qed
qed

lemma is_word_letters:
  "\<forall>c \<in> set ''theandyourcorrectPleasexplain''. is_word c"
  by (simp add: is_word_def isalnum_def isalpha_def isupper_def islower_def isdigit_def)

lemma after_sub_phrase:
  assumes "all_words (avoid B) s"
    and "''you'' \<notin> set B" "''are'' \<notin> set B" "''correct'' \<notin> set B"
  shows "all_words (avoid B) (sub_phrase s)"
proof -
  have l: "lower ''you'' = ''you''" "lower ''are'' = ''are''" "lower ''correct'' = ''correct''"
    by (simp_all add: lower_char_def isupper_def)
  show ?thesis
    unfolding all_words_def
  proof
    fix w assume "w \<in> set (words (sub_phrase s))"
    with words_sub_phrase [of s] have "w \<in> set (words s) \<or> w \<in> {''you'', ''are'', ''correct''}"
      by blast
    with assms l show "avoid B w" by (auto simp: all_words_def avoid_def)
  qed
qed

lemma fix_typos_clean: "all_words (avoid typo_words) (fix_typos s)"
proof -
  have lw: "lower ''the'' = ''the''" "lower ''and'' = ''and''" "lower ''your'' = ''your''"
    by (simp_all add: lower_char_def isupper_def)
  have w: "\<forall>c \<in> set ''the''. is_word c" "\<forall>c \<in> set ''and''. is_word c" "\<forall>c \<in> set ''your''. is_word c"
    using is_word_letters by simp_all
  have 1: "all_words (avoid (''teh'' # contractions))
             (sub_words (fix_word ''teh'' ''the'') (sub_words fix_contraction s))"
    by (rule after_fix_word [OF after_contractions _ w(1)]) (simp_all add: lower_char_def isupper_def contractions_def)
  have 2: "all_words (avoid (''adn'' # ''teh'' # contractions))
             (sub_words (fix_word ''adn'' ''and'') (sub_words (fix_word ''teh'' ''the'')
                (sub_words fix_contraction s)))"
    by (rule after_fix_word [OF 1 _ w(2)]) (simp_all add: lower_char_def isupper_def contractions_def)
  have 3: "all_words (avoid typo_words)
             (sub_words (fix_word ''yoru'' ''your'') (sub_words (fix_word ''adn'' ''and'')
               (sub_words (fix_word ''teh'' ''the'') (sub_words fix_contraction s))))"
    unfolding typo_words_def
    by (rule after_fix_word [OF 2 _ w(3)]) (simp_all add: lower_char_def isupper_def contractions_def)
  show ?thesis
    unfolding fix_typos_def
    by (rule after_sub_phrase [OF 3]) (simp_all add: typo_words_def contractions_def)
qed

lemma clean_fix_words:
  assumes "all_words (avoid typo_words) s"
  shows "sub_words fix_contraction s = s"
    and "sub_words (fix_word ''teh'' ''the'') s = s"
    and "sub_words (fix_word ''adn'' ''and'') s = s"
    and "sub_words (fix_word ''yoru'' ''your'') s = s"
proof -
  from assms have a: "\<forall>w \<in> set (words s). lower w \<notin> set typo_words"
    by (simp add: all_words_def avoid_def)
  show "sub_words fix_contraction s = s"
    by (rule sub_words_id) (use a in \<open>auto simp: fix_contraction_def typo_words_def\<close>)
  show "sub_words (fix_word ''teh'' ''the'') s = s"
    by (rule sub_words_id) (use a in \<open>auto simp: fix_word_def typo_words_def\<close>)
  show "sub_words (fix_word ''adn'' ''and'') s = s"
    by (rule sub_words_id) (use a in \<open>auto simp: fix_word_def typo_words_def\<close>)
  show "sub_words (fix_word ''yoru'' ''your'') s = s"
    by (rule sub_words_id) (use a in \<open>auto simp: fix_word_def typo_words_def\<close>)
qed


lemma match_phrase_eq:
  "match_phrase s = (if phrase_at s then Some (after_phrase s) else None)"
  by (simp add: match_phrase_def phrase_at_def after_phrase_def Let_def)

lemma starts_sep_after_phrase [simp]: "starts_sep (after_phrase s)"
  by (simp add: after_phrase_def)

lemma starts_sep_takeWhile: "starts_sep z \<Longrightarrow> takeWhile is_word z = []"
  by (cases z) simp_all

lemma starts_sep_dropWhile_id: "starts_sep z \<Longrightarrow> dropWhile is_word z = z"
  by (cases z) simp_all

lemma phrase_at_word: "phrase_at s \<Longrightarrow> \<exists>c cs. s = c # cs \<and> is_word c"
  by (cases s) (auto simp: phrase_at_def split: if_splits)

lemma sub_phrase_nonword_prefix:
  "\<forall>c \<in> set j. \<not> is_word c \<Longrightarrow> sub_phrase (j @ y) = j @ sub_phrase y"
  by (induction j) simp_all

lemma letters [simp]:
  "is_word (CHR ''y'')" "is_word (CHR ''o'')" "is_word (CHR ''u'')" "is_word (CHR ''a'')"
  "is_word (CHR ''r'')" "is_word (CHR ''e'')" "is_word (CHR ''c'')" "is_word (CHR ''t'')"
  "\<not> is_word (CHR '' '')" "isspace (CHR '' '')"
  "\<not> isspace (CHR ''y'')" "\<not> isspace (CHR ''a'')" "\<not> isspace (CHR ''c'')"
  "lower_char (CHR ''y'') = CHR ''y''" "lower_char (CHR ''o'') = CHR ''o''"
  "lower_char (CHR ''u'') = CHR ''u''" "lower_char (CHR ''a'') = CHR ''a''"
  "lower_char (CHR ''r'') = CHR ''r''" "lower_char (CHR ''e'') = CHR ''e''"
  "lower_char (CHR ''c'') = CHR ''c''" "lower_char (CHR ''t'') = CHR ''t''"
  by (simp_all add: is_word_def isalnum_def isalpha_def isupper_def islower_def isdigit_def
      isspace_def lower_char_def)

lemma not_phrase_at_correct:
  assumes "starts_sep z"
  shows "\<not> phrase_at (''you are correct'' @ z)"
    and "\<not> phrase_at (''are correct'' @ z)"
    and "\<not> phrase_at (''correct'' @ z)"
  using assms by (simp_all add: phrase_at_def starts_sep_takeWhile)

lemma sub_phrase_you_are_correct:
  assumes "starts_sep z"
  shows "sub_phrase (''you are correct'' @ z) = ''you are correct'' @ sub_phrase z"
proof -
  have 1: "match_phrase (''you are correct'' @ z) = None"
    "match_phrase (''are correct'' @ z) = None" "match_phrase (''correct'' @ z) = None"
    using not_phrase_at_correct [OF assms] by (simp_all add: match_phrase_eq)
  have c: "sub_phrase (''correct'' @ z) = ''correct'' @ sub_phrase z"
    using 1(3) assms by (simp add: starts_sep_takeWhile starts_sep_dropWhile_id)
  have a: "sub_phrase (''are correct'' @ z) = ''are correct'' @ sub_phrase z"
    using 1(2) c by simp
  show ?thesis using 1(1) a by simp
qed

lemma sub_phrase_word_head:
  assumes "is_word c"
  shows "\<exists>d ds. sub_phrase (c # cs) = d # ds \<and> is_word d"
  using assms by (cases "match_phrase (c # cs)") simp_all

lemma sub_phrase_blanks:
  "takeWhile isspace (sub_phrase y) = takeWhile isspace y \<and>
   dropWhile isspace (sub_phrase y) = sub_phrase (dropWhile isspace y)"
proof (induction y)
  case Nil
  then show ?case by simp
next
  case (Cons c cs)
  show ?case
  proof (cases "isspace c")
    case True
    then have "\<not> is_word c" by (auto dest: is_word_not_space)
    with True Cons show ?thesis by simp
  next
    case False
    show ?thesis
    proof (cases "is_word c")
      case nw: False
      with False show ?thesis by simp
    next
      case True
      from sub_phrase_word_head [OF True] obtain d ds
        where d: "sub_phrase (c # cs) = d # ds" "is_word d" by blast
      then have "\<not> isspace d" by (auto dest: is_word_not_space)
      with d False show ?thesis by simp
    qed
  qed
qed

lemma sub_phrase_word_None:
  assumes "match_phrase y = None"
  shows "takeWhile is_word (sub_phrase y) = takeWhile is_word y \<and>
         dropWhile is_word (sub_phrase y) = sub_phrase (dropWhile is_word y)"
proof (cases y)
  case Nil
  then show ?thesis by simp
next
  case (Cons c cs)
  show ?thesis
  proof (cases "is_word c")
    case False
    with Cons show ?thesis by simp
  next
    case True
    let ?z = "sub_phrase (dropWhile is_word cs)"
    have z: "starts_sep ?z" by (simp add: sub_phrase_starts_sep)
    have s: "sub_phrase y = (c # takeWhile is_word cs) @ ?z"
      using assms Cons True by simp
    have w: "\<forall>x \<in> set (c # takeWhile is_word cs). is_word x"
      using True by (auto dest: set_takeWhileD)
    from takeWhile_all_append [OF w z] dropWhile_all_append [OF w z] s Cons True
    show ?thesis by simp
  qed
qed

lemma sub_phrase_word_lower:
  "lower (takeWhile is_word (sub_phrase y)) = lower (takeWhile is_word y)"
proof (cases "phrase_at y")
  case False
  then have "match_phrase y = None" by (simp add: match_phrase_eq)
  then show ?thesis by (simp add: sub_phrase_word_None)
next
  case True
  then obtain c cs where y: "y = c # cs" "is_word c" by (blast dest: phrase_at_word)
  from True have m: "match_phrase y = Some (after_phrase y)" by (simp add: match_phrase_eq)
  from True have l: "lower (takeWhile is_word y) = ''you''" by (simp add: phrase_at_def)
  from m y have "sub_phrase y = ''you are correct'' @ sub_phrase (after_phrase y)" by simp
  then have "takeWhile is_word (sub_phrase y) = ''you''" by simp
  with l show ?thesis by simp
qed

lemma not_phrase_at_sub_phrase: "\<not> phrase_at (sub_phrase s)"
proof (cases "phrase_at s")
  case True
  then obtain c cs where y: "s = c # cs" "is_word c" by (blast dest: phrase_at_word)
  from True have m: "match_phrase s = Some (after_phrase s)" by (simp add: match_phrase_eq)
  from m y have e: "sub_phrase s = ''you are correct'' @ sub_phrase (after_phrase s)" by simp
  have "starts_sep (sub_phrase (after_phrase s))" by (simp add: sub_phrase_starts_sep)
  from not_phrase_at_correct(1) [OF this] e show ?thesis by simp
next
  case False
  then have n: "match_phrase s = None" by (simp add: match_phrase_eq)
  define r1 where "r1 = dropWhile is_word s"
  define r2 where "r2 = dropWhile isspace r1"
  define r3 where "r3 = dropWhile is_word r2"
  define r4 where "r4 = dropWhile isspace r3"
  have a1: "takeWhile is_word (sub_phrase s) = takeWhile is_word s"
    and a2: "dropWhile is_word (sub_phrase s) = sub_phrase r1"
    using sub_phrase_word_None [OF n] by (simp_all add: r1_def)
  have b1: "takeWhile isspace (sub_phrase r1) = takeWhile isspace r1"
    and b2: "dropWhile isspace (sub_phrase r1) = sub_phrase r2"
    using sub_phrase_blanks [of r1] by (simp_all add: r2_def)
  have c1: "lower (takeWhile is_word (sub_phrase r2)) = lower (takeWhile is_word r2)"
    by (rule sub_phrase_word_lower)
  show ?thesis
  proof (cases "phrase_at r2")
    case True
    then have "lower (takeWhile is_word r2) = ''you''" by (simp add: phrase_at_def)
    with c1 show ?thesis by (simp add: phrase_at_def a2 b2)
  next
    case f2: False
    then have "match_phrase r2 = None" by (simp add: match_phrase_eq)
    from sub_phrase_word_None [OF this]
    have c2: "dropWhile is_word (sub_phrase r2) = sub_phrase r3" by (simp add: r3_def)
    have d1: "takeWhile isspace (sub_phrase r3) = takeWhile isspace r3"
      and d2: "dropWhile isspace (sub_phrase r3) = sub_phrase r4"
      using sub_phrase_blanks [of r3] by (simp_all add: r4_def)
    have e1: "lower (takeWhile is_word (sub_phrase r4)) = lower (takeWhile is_word r4)"
      by (rule sub_phrase_word_lower)
    have "phrase_at (sub_phrase s) = phrase_at s"
      unfolding phrase_at_def a1 a2 b1 b2 c1 c2 d1 d2 e1
      by (simp add: r1_def r2_def r3_def r4_def)
    with False show ?thesis by simp
  qed
qed

lemma sub_phrase_idem: "sub_phrase (sub_phrase s) = sub_phrase s"
proof (induction s rule: sub_phrase.induct)
  case 1
  then show ?case by simp
next
  case (2 c cs)
  show ?case
  proof (cases "is_word c")
    case False
    with 2(3) show ?thesis by simp
  next
    case True
    show ?thesis
    proof (cases "match_phrase (c # cs)")
      case None
      let ?w = "c # takeWhile is_word cs"
      let ?z = "sub_phrase (dropWhile is_word cs)"
      have s: "sub_phrase (c # cs) = ?w @ ?z" using None True by simp
      have z: "starts_sep ?z" by (simp add: sub_phrase_starts_sep)
      have w: "\<forall>x \<in> set (takeWhile is_word cs). is_word x" by (auto dest: set_takeWhileD)
      have "match_phrase (?w @ ?z) = None"
        using not_phrase_at_sub_phrase [of "c # cs"] s by (simp add: match_phrase_eq)
      then have "sub_phrase (?w @ ?z) = ?w @ sub_phrase ?z"
        using True takeWhile_all_append [OF w z] dropWhile_all_append [OF w z] by simp
      with s 2(1) [OF True None] show ?thesis by simp
    next
      case (Some rest)
      then have r: "rest = after_phrase (c # cs)" by (simp add: match_phrase_eq split: if_splits)
      have s: "sub_phrase (c # cs) = ''you are correct'' @ sub_phrase rest"
        using Some True by simp
      have "starts_sep (sub_phrase rest)" unfolding r by (simp add: sub_phrase_starts_sep)
      from sub_phrase_you_are_correct [OF this] s 2(2) [OF True Some] show ?thesis by simp
    qed
  qed
qed


lemma rstrip_chars_decomp: "\<exists>j. t = rstrip_chars cs t @ j \<and> set j \<subseteq> set cs"
proof -
  let ?P = "\<lambda>c. c \<in> set cs"
  have "rev t = takeWhile ?P (rev t) @ dropWhile ?P (rev t)" by simp
  then have "t = rev (dropWhile ?P (rev t)) @ rev (takeWhile ?P (rev t))"
    by (metis rev_append rev_rev_ident)
  moreover have "set (rev (takeWhile ?P (rev t))) \<subseteq> set cs"
    by (auto dest: set_takeWhileD)
  ultimately show ?thesis unfolding rstrip_chars_def by blast
qed

lemma rstrip_decomp: "\<exists>j. t = rstrip t @ j \<and> (\<forall>c \<in> set j. isspace c)"
proof -
  have "rev t = takeWhile isspace (rev t) @ dropWhile isspace (rev t)" by simp
  then have "t = rev (dropWhile isspace (rev t)) @ rev (takeWhile isspace (rev t))"
    by (metis rev_append rev_rev_ident)
  moreover have "\<forall>c \<in> set (rev (takeWhile isspace (rev t))). isspace c"
    by (auto dest: set_takeWhileD)
  ultimately show ?thesis unfolding rstrip_def by blast
qed

lemma punct_not_word:
  "\<not> is_word (CHR ''.'')" "\<not> is_word (CHR ''!'')" "\<not> is_word (CHR ''?'')" "\<not> is_word (CHR '':'')"
  by (simp_all add: is_word_def isalnum_def isalpha_def isupper_def islower_def isdigit_def)

lemma words_add_clarity:
  "set (words (add_clarity t)) \<subseteq> set (words t) \<union> {''Please'', ''explain''}"
proof -
  have "words (''Please explain'' @ CHR '':'' # CHR '' '' # t) = words ''Please explain'' @ words (CHR '' '' # t)"
    by (rule words_append_sep) (rule punct_not_word)
  moreover have "words ''Please explain'' = [''Please'', ''explain'']" by code_simp
  ultimately have "words (''Please explain: '' @ t) = [''Please'', ''explain''] @ words t"
    by simp
  then show ?thesis by (auto simp: add_clarity_def)
qed

lemma words_question_formatting: "words (question_formatting t) = words t"
proof -
  from rstrip_chars_decomp [of t "''.!''"] obtain j
    where j: "t = rstrip_chars ''.!'' t @ j" "set j \<subseteq> set ''.!''" by blast
  then have nw: "\<forall>c \<in> set j. \<not> is_word c" using punct_not_word by auto
  have "words t = words (rstrip_chars ''.!'' t @ j)" using j(1) by simp
  also have "\<dots> = words (rstrip_chars ''.!'' t)" using nw by (rule words_snoc_nonword)
  finally have a: "words (rstrip_chars ''.!'' t) = words t" by simp
  have "words (rstrip_chars ''.!'' t @ ''?'') = words (rstrip_chars ''.!'' t)"
    by (rule words_snoc_nonword) (simp add: punct_not_word)
  with a show ?thesis by (simp add: question_formatting_def)
qed

lemma collapse_ws_word_prefix:
  "collapse_ws s = takeWhile is_word s @ collapse_ws (dropWhile is_word s)"
  by (induction s) (auto dest: is_word_not_space)

lemma collapse_ws_starts_sep: "starts_sep z \<Longrightarrow> starts_sep (collapse_ws z)"
  by (cases z) simp_all

lemma takeWhile_word_collapse_ws: "takeWhile is_word (collapse_ws s) = takeWhile is_word s"
proof -
  have "takeWhile is_word (takeWhile is_word s @ collapse_ws (dropWhile is_word s)) = takeWhile is_word s"
    by (rule takeWhile_all_append) (auto dest: set_takeWhileD simp: collapse_ws_starts_sep)
  then show ?thesis using collapse_ws_word_prefix [of s] by simp
qed

lemma dropWhile_word_collapse_ws:
  "dropWhile is_word (collapse_ws s) = collapse_ws (dropWhile is_word s)"
proof -
  have "dropWhile is_word (takeWhile is_word s @ collapse_ws (dropWhile is_word s)) =
      collapse_ws (dropWhile is_word s)"
    by (rule dropWhile_all_append) (auto dest: set_takeWhileD simp: collapse_ws_starts_sep)
  then show ?thesis using collapse_ws_word_prefix [of s] by simp
qed

lemma words_collapse_ws: "words (collapse_ws s) = words s"
proof (induction "length s" arbitrary: s rule: less_induct)
  case less
  show ?case
  proof (cases s)
    case Nil
    then show ?thesis by simp
  next
    case (Cons c cs)
    show ?thesis
    proof (cases "isspace c")
      case True
      then have nw: "\<not> is_word c" by (auto dest: is_word_not_space)
      have "length (dropWhile isspace cs) < length s"
        using Cons by (simp add: length_dropWhile_le less_Suc_eq_le)
      from less [OF this] True nw Cons show ?thesis by simp
    next
      case False
      have l: "length cs < length s" using Cons by simp
      show ?thesis
      proof (cases "is_word c")
        case nw: False
        with False less [OF l] Cons show ?thesis by simp
      next
        case True
        have "length (dropWhile is_word cs) < length s"
          using Cons by (simp add: length_dropWhile_le less_Suc_eq_le)
        from less [OF this] True False Cons show ?thesis
          by (simp add: takeWhile_word_collapse_ws dropWhile_word_collapse_ws)
      qed
    qed
  qed
qed

lemma words_strip: "words (strip s) = words s"
proof -
  from rstrip_decomp [of "lstrip s"] obtain j
    where j: "lstrip s = strip s @ j" "\<forall>c \<in> set j. isspace c" by (auto simp: strip_def)
  then have "\<forall>c \<in> set j. \<not> is_word c" by (auto dest: is_word_not_space)
  then have "words (strip s @ j) = words (strip s)" by (rule words_snoc_nonword)
  with j(1) have "words (strip s) = words (lstrip s)" by simp
  then show ?thesis by (simp add: lstrip_def)
qed

lemma upper_char_ascii: "ascii c \<Longrightarrow> upper_char c = [ascii_upper c]"
  by (simp add: upper_char_def ascii_upper_def ascii_def Let_def)

lemma capitalize_first_ascii:
  assumes "s = [] \<or> ascii (hd s)"
  shows "capitalize_first s =
     (if s \<noteq> [] \<and> \<not> isupper (hd s) \<and> isalpha (hd s) then ascii_upper (hd s) # tl s else s)"
  using assms by (auto simp: capitalize_first_def upper_char_ascii)

lemma lower_upper_char: "lower_char (ascii_upper c) = lower_char c"
proof (cases "97 \<le> (of_char c :: nat) \<and> (of_char c :: nat) \<le> 122")
  case False
  then show ?thesis by (auto simp: ascii_upper_def Let_def)
next
  case True
  let ?n = "of_char c :: nat"
  from True have n: "97 \<le> ?n" "?n \<le> 122" by simp_all
  then have m: "(?n - 32) mod 256 = ?n - 32" by simp
  have u: "ascii_upper c = char_of (?n - 32)" using True by (simp add: ascii_upper_def)
  have "65 \<le> ?n - 32" "?n - 32 \<le> 90" using n by arith+
  then have "isupper (char_of (?n - 32))" using m by (simp add: isupper_def Let_def)
  moreover have "\<not> isupper c" using n by (simp add: isupper_def Let_def)
  moreover have "char_of (?n - 32 + 32) = c" using n by simp
  ultimately show ?thesis using u m by (simp add: lower_char_def)
qed

lemma alpha_is_word: "isalpha c \<Longrightarrow> is_word c"
  by (simp add: is_word_def isalnum_def)

lemma upper_char_alpha: "isalpha c \<Longrightarrow> isalpha (ascii_upper c)"
proof (cases "97 \<le> (of_char c :: nat) \<and> (of_char c :: nat) \<le> 122")
  case False
  assume "isalpha c"
  with False show ?thesis by (auto simp: ascii_upper_def Let_def)
next
  case True
  let ?n = "of_char c :: nat"
  from True have n: "97 \<le> ?n" "?n \<le> 122" by simp_all
  then have m: "(?n - 32) mod 256 = ?n - 32" by simp
  have "65 \<le> ?n - 32" "?n - 32 \<le> 90" using n by arith+
  then have "isupper (char_of (?n - 32))" using m by (simp add: isupper_def Let_def)
  with True show ?thesis by (simp add: ascii_upper_def isalpha_def)
qed

lemma words_capitalize_first:
  assumes "s = [] \<or> ascii (hd s)"
  shows "map lower (words (capitalize_first s)) = map lower (words s)"
proof (cases "s \<noteq> [] \<and> \<not> isupper (hd s) \<and> isalpha (hd s)")
  case False
  then show ?thesis by (auto simp: capitalize_first_def)
next
  case True
  then obtain c cs where s: "s = c # cs" "isalpha c" by (cases s) auto
  then have "is_word c" "is_word (ascii_upper c)"
    by (simp_all add: alpha_is_word upper_char_alpha)
  moreover have "capitalize_first (c # cs) = ascii_upper c # cs"
    using capitalize_first_ascii [OF assms] True s by simp
  ultimately show ?thesis using s by (simp add: lower_upper_char)
qed

lemma all_words_avoid_lower:
  "map lower (words a) = map lower (words b) \<Longrightarrow> all_words (avoid B) a = all_words (avoid B) b"
proof -
  assume "map lower (words a) = map lower (words b)"
  then have e: "lower ` set (words a) = lower ` set (words b)" by (metis set_map)
  have h: "all_words (avoid B) x = (\<forall>y \<in> lower ` set (words x). y \<notin> set B)" for x
    by (auto simp: all_words_def avoid_def)
  show ?thesis unfolding h e by (rule refl)
qed

lemma ascii_hd: "list_all ascii s \<Longrightarrow> s = [] \<or> ascii (hd s)"
  by (cases s) simp_all

lemma ascii_strip: "list_all ascii s \<Longrightarrow> list_all ascii (strip s)"
  by (auto simp: list_all_iff strip_def lstrip_def rstrip_def dest!: set_dropWhileD)

lemma ascii_rstrip_chars: "list_all ascii s \<Longrightarrow> list_all ascii (rstrip_chars cs s)"
  by (auto simp: list_all_iff rstrip_chars_def dest!: set_dropWhileD)

lemma ascii_sub_words:
  "(\<And>w. list_all ascii w \<Longrightarrow> list_all ascii (f w)) \<Longrightarrow> list_all ascii s \<Longrightarrow>
     list_all ascii (sub_words f s)"
proof (induction f s rule: sub_words.induct)
  case (1 f)
  then show ?case by simp
next
  case (2 f c cs)
  show ?case
  proof (cases "is_word c")
    case True
    from 2(4) have a: "list_all ascii (c # takeWhile is_word cs)"
      and b: "list_all ascii (dropWhile is_word cs)"
      by (auto simp: list_all_iff dest: set_takeWhileD set_dropWhileD)
    from 2(1) [OF True 2(3) b] 2(3) [OF a] True show ?thesis by simp
  next
    case False
    with 2(2) [OF False 2(3)] 2(4) show ?thesis by simp
  qed
qed

lemma ascii_fix_contraction: "list_all ascii w \<Longrightarrow> list_all ascii (fix_contraction w)"
  by (cases w) (auto simp: fix_contraction_def contractions_def lower_def ascii_def)

lemma ascii_fix_word:
  "list_all ascii repl \<Longrightarrow> list_all ascii w \<Longrightarrow> list_all ascii (fix_word pat repl w)"
  by (simp add: fix_word_def)

lemma ascii_after_phrase: "list_all ascii s \<Longrightarrow> list_all ascii (after_phrase s)"
  by (auto simp: list_all_iff after_phrase_def dest!: set_dropWhileD)

lemma ascii_sub_phrase: "list_all ascii s \<Longrightarrow> list_all ascii (sub_phrase s)"
proof (induction s rule: sub_phrase.induct)
  case 1
  then show ?case by simp
next
  case (2 c cs)
  have lit: "list_all ascii ''you are correct''" by (simp add: ascii_def)
  show ?case
  proof (cases "is_word c")
    case False
    with 2(3) [OF False] 2(4) show ?thesis by simp
  next
    case True
    show ?thesis
    proof (cases "match_phrase (c # cs)")
      case None
      from 2(4) have a: "list_all ascii (c # takeWhile is_word cs)"
        and b: "list_all ascii (dropWhile is_word cs)"
        by (auto simp: list_all_iff dest: set_takeWhileD set_dropWhileD)
      from 2(1) [OF True None b] a None True show ?thesis by simp
    next
      case (Some rest)
      then have "rest = after_phrase (c # cs)" by (simp add: match_phrase_eq split: if_splits)
      with 2(4) have "list_all ascii rest" by (simp add: ascii_after_phrase)
      from 2(2) [OF True Some this] lit Some True show ?thesis by simp
    qed
  qed
qed

lemma ascii_fix_typos: "list_all ascii s \<Longrightarrow> list_all ascii (fix_typos s)"
  unfolding fix_typos_def
  by (intro ascii_sub_phrase ascii_sub_words ascii_fix_word ascii_fix_contraction)
     (simp_all add: ascii_def)

lemma ascii_collapse_ws: "list_all ascii s \<Longrightarrow> list_all ascii (collapse_ws s)"
proof (induction s rule: collapse_ws.induct)
  case 1
  then show ?case by simp
next
  case (2 c cs)
  show ?case
  proof (cases "isspace c")
    case True
    from 2(3) have "list_all ascii (dropWhile isspace cs)"
      by (auto simp: list_all_iff dest: set_dropWhileD)
    moreover have "ascii (CHR '' '')" by (simp add: ascii_def)
    ultimately show ?thesis using 2(1) [OF True] True by simp
  next
    case False
    with 2(2) [OF False] 2(3) show ?thesis by simp
  qed
qed

lemma ascii_before_capitalize:
  assumes "list_all ascii t"
  shows "list_all ascii (normalize_whitespace (add_context ctx
           (question_formatting (add_clarity t))))"
proof -
  have c: "add_context ctx x = x" for x
    by (simp add: add_context_def split: option.splits)
  have "list_all ascii (add_clarity t)"
    using assms by (simp add: add_clarity_def ascii_def)
  then have "list_all ascii (question_formatting (add_clarity t))"
    by (simp add: question_formatting_def ascii_rstrip_chars ascii_def)
  then show ?thesis
    unfolding c normalize_whitespace_def by (intro ascii_strip ascii_collapse_ws)
qed

lemma clean_after_steps:
  assumes "all_words (avoid typo_words) t" and "list_all ascii t"
  shows "all_words (avoid typo_words)
           (capitalize_first (normalize_whitespace (add_context ctx
              (question_formatting (add_clarity t)))))"
proof -
  have p: "lower ''Please'' \<notin> set typo_words" "lower ''explain'' \<notin> set typo_words"
    by (simp_all add: typo_words_def contractions_def lower_char_def isupper_def)
  have 1: "all_words (avoid typo_words) (add_clarity t)"
    using assms(1) words_add_clarity [of t] p by (auto simp: all_words_def avoid_def)
  have c: "add_context ctx x = x" for x
    by (simp add: add_context_def split: option.splits)
  have "words (normalize_whitespace (add_context ctx (question_formatting (add_clarity t)))) =
      words (add_clarity t)"
    by (simp add: c normalize_whitespace_def words_strip words_collapse_ws words_question_formatting)
  with 1 have "all_words (avoid typo_words)
      (normalize_whitespace (add_context ctx (question_formatting (add_clarity t))))"
    by (simp add: all_words_def)
  then show ?thesis
    using all_words_avoid_lower [OF words_capitalize_first
        [OF ascii_hd [OF ascii_before_capitalize [OF assms(2)]]]]
    by blast
qed


lemma takeWhile_word_snoc:
  "starts_sep T \<Longrightarrow> takeWhile is_word (x @ T) = takeWhile is_word x"
  by (cases T) (simp_all add: takeWhile_append_sep)

lemma dropWhile_word_snoc:
  "starts_sep T \<Longrightarrow> dropWhile is_word (x @ T) = dropWhile is_word x @ T"
  by (cases T) (simp_all add: dropWhile_append_sep)

lemma blanks_snoc:
  assumes "dropWhile isspace x \<noteq> []"
  shows "takeWhile isspace (x @ T) = takeWhile isspace x"
    and "dropWhile isspace (x @ T) = dropWhile isspace x @ T"
proof -
  from assms obtain y where y: "y \<in> set x" "\<not> isspace y"
    by (auto simp: dropWhile_eq_Nil_conv)
  then show "takeWhile isspace (x @ T) = takeWhile isspace x" by (rule takeWhile_append1)
  from y show "dropWhile isspace (x @ T) = dropWhile isspace x @ T" by (rule dropWhile_append1)
qed

lemma blanks_all:
  assumes "dropWhile isspace x = []"
  shows "dropWhile isspace (x @ T) = dropWhile isspace T"
  using assms by (intro dropWhile_append2) (simp add: dropWhile_eq_Nil_conv)

lemma nonword_dropWhile: "\<forall>c \<in> set j. \<not> is_word c \<Longrightarrow> starts_sep (dropWhile P j)"
  by (induction j) auto

lemma phrase_at_snoc:
  assumes j: "\<forall>c \<in> set j. \<not> is_word c"
  shows "phrase_at (a @ j) = phrase_at a \<and>
         (phrase_at a \<longrightarrow> after_phrase (a @ j) = after_phrase a @ j)"
proof -
  have sj: "starts_sep j" using j by (cases j) simp_all
  have tj: "takeWhile is_word (dropWhile isspace j) = []"
    using nonword_dropWhile [OF j] by (simp add: starts_sep_takeWhile)
  define r1 where "r1 = dropWhile is_word a"
  define r2 where "r2 = dropWhile isspace r1"
  define r3 where "r3 = dropWhile is_word r2"
  define r4 where "r4 = dropWhile isspace r3"
  have a1: "takeWhile is_word (a @ j) = takeWhile is_word a"
    and a2: "dropWhile is_word (a @ j) = r1 @ j"
    using sj by (simp_all add: takeWhile_word_snoc dropWhile_word_snoc r1_def)
  show ?thesis
  proof (cases "r2 = []")
    case True
    then have "dropWhile isspace (r1 @ j) = dropWhile isspace j"
      unfolding r2_def by (rule blanks_all)
    with tj have "\<not> phrase_at (a @ j)" by (simp add: phrase_at_def a2)
    moreover have "\<not> phrase_at a"
    proof -
      from True have "lower (takeWhile is_word r2) \<noteq> ''are''" by simp
      then show ?thesis unfolding phrase_at_def r2_def r1_def by blast
    qed
    ultimately show ?thesis by simp
  next
    case False
    then have b1: "takeWhile isspace (r1 @ j) = takeWhile isspace r1"
      and b2: "dropWhile isspace (r1 @ j) = r2 @ j"
      unfolding r2_def by (simp_all add: blanks_snoc)
    have c1: "takeWhile is_word (r2 @ j) = takeWhile is_word r2"
      and c2: "dropWhile is_word (r2 @ j) = r3 @ j"
      using sj by (simp_all add: takeWhile_word_snoc dropWhile_word_snoc r3_def)
    show ?thesis
    proof (cases "r4 = []")
      case True
      then have "dropWhile isspace (r3 @ j) = dropWhile isspace j"
        unfolding r4_def by (rule blanks_all)
      with tj have "\<not> phrase_at (a @ j)" by (simp add: phrase_at_def a2 b2 c2)
      moreover have "\<not> phrase_at a"
      proof -
        from True have "lower (takeWhile is_word r4) \<noteq> ''right''" by simp
        then show ?thesis unfolding phrase_at_def r4_def r3_def r2_def r1_def by blast
      qed
      ultimately show ?thesis by simp
    next
      case False
      then have d1: "takeWhile isspace (r3 @ j) = takeWhile isspace r3"
        and d2: "dropWhile isspace (r3 @ j) = r4 @ j"
        unfolding r4_def by (simp_all add: blanks_snoc)
      have e1: "takeWhile is_word (r4 @ j) = takeWhile is_word r4"
        and e2: "dropWhile is_word (r4 @ j) = dropWhile is_word r4 @ j"
        using sj by (simp_all add: takeWhile_word_snoc dropWhile_word_snoc)
      have "phrase_at (a @ j) = phrase_at a"
        unfolding phrase_at_def a1 a2 b1 b2 c1 c2 d1 d2 e1
        by (simp add: r1_def r2_def r3_def r4_def)
      moreover have "after_phrase (a @ j) = after_phrase a @ j"
        unfolding after_phrase_def a2 b2 c2 d2 e2
        by (simp add: r1_def r2_def r3_def r4_def)
      ultimately show ?thesis by simp
    qed
  qed
qed

lemma sub_phrase_nonword: "\<forall>c \<in> set j. \<not> is_word c \<Longrightarrow> sub_phrase j = j"
  using sub_phrase_nonword_prefix [of j "[]"] by simp

lemma sub_phrase_snoc:
  assumes j: "\<forall>c \<in> set j. \<not> is_word c"
  shows "sub_phrase (a @ j) = sub_phrase a @ j"
proof (induction a rule: sub_phrase.induct)
  case 1
  then show ?case using j by (simp add: sub_phrase_nonword)
next
  case (2 c cs)
  have sj: "starts_sep j" using j by (cases j) simp_all
  show ?case
  proof (cases "is_word c")
    case False
    with 2(3) show ?thesis by simp
  next
    case True
    from phrase_at_snoc [OF j, of "c # cs"]
    have p: "phrase_at ((c # cs) @ j) = phrase_at (c # cs)"
      and q: "phrase_at (c # cs) \<Longrightarrow> after_phrase ((c # cs) @ j) = after_phrase (c # cs) @ j"
      by simp_all
    show ?thesis
    proof (cases "match_phrase (c # cs)")
      case None
      then have "\<not> phrase_at (c # cs)" by (simp add: match_phrase_eq split: if_splits)
      with p have "match_phrase (c # cs @ j) = None" by (simp add: match_phrase_eq)
      with None True 2(1) [OF True None] sj show ?thesis
        by (simp add: takeWhile_word_snoc dropWhile_word_snoc)
    next
      case (Some rest)
      then have pa: "phrase_at (c # cs)" and r: "rest = after_phrase (c # cs)"
        by (simp_all add: match_phrase_eq split: if_splits)
      from p q [OF pa] pa r have "match_phrase (c # cs @ j) = Some (rest @ j)"
        by (simp add: match_phrase_eq)
      with Some True 2(2) [OF True Some] show ?thesis by simp
    qed
  qed
qed

lemma sub_phrase_prefix:
  "sub_phrase (''Please explain: '' @ t) = ''Please explain: '' @ sub_phrase t"
proof -
  have "sub_phrase (''Please explain'' @ CHR '':'' # CHR '' '' # t) =
      sub_phrase (''Please explain'' @ [CHR '':'']) @ sub_phrase (CHR '' '' # t)"
  proof -
    have w: "is_word (CHR ''P'')" "is_word (CHR ''l'')" "is_word (CHR ''s'')" "is_word (CHR ''x'')"
      "is_word (CHR ''p'')" "is_word (CHR ''i'')" "is_word (CHR ''n'')"
      "lower_char (CHR ''P'') = CHR ''p''" "lower_char (CHR ''l'') = CHR ''l''"
      "lower_char (CHR ''e'') = CHR ''e''" "lower_char (CHR ''x'') = CHR ''x''"
      by code_simp+
    have n1: "\<not> phrase_at (''Please explain'' @ CHR '':'' # CHR '' '' # t)"
      "\<not> phrase_at (''explain'' @ CHR '':'' # CHR '' '' # t)"
      "\<not> phrase_at (''Please explain'' @ [CHR '':''])"
      "\<not> phrase_at (''explain'' @ [CHR '':''])"
      using w by (simp_all add: phrase_at_def punct_not_word)
    then show ?thesis using w by (simp add: match_phrase_eq punct_not_word)
  qed
  moreover have "sub_phrase (''Please explain'' @ [CHR '':'']) = ''Please explain:''" by code_simp
  ultimately show ?thesis by simp
qed

lemma sub_phrase_fixed_not_phrase_at:
  assumes "sub_phrase s = s"
  shows "\<not> phrase_at s"
  using not_phrase_at_sub_phrase [of s] assms by simp

lemma phrase_at_capitalize:
  assumes "isalpha c"
  shows "phrase_at (ascii_upper c # cs) = phrase_at (c # cs)"
  using assms by (simp add: phrase_at_def alpha_is_word upper_char_alpha lower_upper_char)

lemma sub_phrase_capitalize_first:
  assumes "sub_phrase s = s" and "s = [] \<or> ascii (hd s)"
  shows "sub_phrase (capitalize_first s) = capitalize_first s"
proof (cases "s \<noteq> [] \<and> \<not> isupper (hd s) \<and> isalpha (hd s)")
  case False
  with assms(1) show ?thesis by (auto simp: capitalize_first_def)
next
  case True
  then obtain c cs where s: "s = c # cs" "isalpha c" by (cases s) auto
  then have w: "is_word c" "is_word (ascii_upper c)"
    by (simp_all add: alpha_is_word upper_char_alpha)
  from sub_phrase_fixed_not_phrase_at [OF assms(1)] have n: "match_phrase (c # cs) = None"
    by (simp add: match_phrase_eq s)
  then have n': "match_phrase (ascii_upper c # cs) = None"
    using phrase_at_capitalize [OF s(2), of cs] by (simp add: match_phrase_eq split: if_splits)
  from assms(1) s n w have "takeWhile is_word cs @ sub_phrase (dropWhile is_word cs) = cs" by simp
  moreover have "capitalize_first (c # cs) = ascii_upper c # cs"
    using capitalize_first_ascii [OF assms(2)] True s by simp
  ultimately show ?thesis using n' w s by simp
qed


lemma collapse_ws_head_nonspace:
  assumes "takeWhile isspace s = []"
  shows "takeWhile isspace (collapse_ws s) = []" and "dropWhile isspace (collapse_ws s) = collapse_ws s"
  using assms by (cases s; simp split: if_splits)+

lemma takeWhile_dropWhile_Nil [simp]: "takeWhile P (dropWhile P xs) = []"
  by (induction xs) auto

lemma collapse_ws_blanks:
  "takeWhile isspace (collapse_ws s) = (if takeWhile isspace s = [] then [] else '' '')"
  "dropWhile isspace (collapse_ws s) = collapse_ws (dropWhile isspace s)"
proof -
  show "takeWhile isspace (collapse_ws s) = (if takeWhile isspace s = [] then [] else '' '')"
  proof (cases s)
    case Nil
    then show ?thesis by simp
  next
    case (Cons c cs)
    then show ?thesis
      using collapse_ws_head_nonspace(1) [of "dropWhile isspace cs"] by simp
  qed
  show "dropWhile isspace (collapse_ws s) = collapse_ws (dropWhile isspace s)"
  proof (cases s)
    case Nil
    then show ?thesis by simp
  next
    case (Cons c cs)
    then show ?thesis
      using collapse_ws_head_nonspace(2) [of "dropWhile isspace cs"]
        collapse_ws_head_nonspace(2) [of "c # cs"] by (cases "isspace c") simp_all
  qed
qed

lemma phrase_at_collapse_ws:
  "phrase_at (collapse_ws s) = phrase_at s"
  "after_phrase (collapse_ws s) = collapse_ws (after_phrase s)"
  by (simp_all add: phrase_at_def after_phrase_def takeWhile_word_collapse_ws
      dropWhile_word_collapse_ws collapse_ws_blanks)

lemma collapse_ws_nonspace_prefix:
  "\<forall>c \<in> set a. \<not> isspace c \<Longrightarrow> collapse_ws (a @ b) = a @ collapse_ws b"
  by (induction a) simp_all

lemma collapse_ws_you_are_correct:
  "collapse_ws (''you are correct'' @ z) = ''you are correct'' @ collapse_ws z"
proof -
  have 1: "collapse_ws (''correct'' @ z) = ''correct'' @ collapse_ws z"
    by (rule collapse_ws_nonspace_prefix) (simp add: isspace_def)
  have "\<forall>c \<in> set ''are''. \<not> isspace c" by (simp add: isspace_def)
  from collapse_ws_nonspace_prefix [OF this, of "CHR '' '' # ''correct'' @ z"] 1
  have 2: "collapse_ws (''are correct'' @ z) = ''are correct'' @ collapse_ws z" by simp
  have "\<forall>c \<in> set ''you''. \<not> isspace c" by (simp add: isspace_def)
  from collapse_ws_nonspace_prefix [OF this, of "CHR '' '' # ''are correct'' @ z"] 2
  show ?thesis by simp
qed

lemma sub_phrase_collapse_ws: "sub_phrase (collapse_ws s) = collapse_ws (sub_phrase s)"
proof (induction "length s" arbitrary: s rule: less_induct)
  case less
  show ?case
  proof (cases s)
    case Nil
    then show ?thesis by simp
  next
    case (Cons c cs)
    show ?thesis
    proof (cases "isspace c")
      case True
      then have nw: "\<not> is_word c" by (auto dest: is_word_not_space)
      have "length (dropWhile isspace cs) < length s"
        using Cons by (simp add: length_dropWhile_le less_Suc_eq_le)
      from less [OF this] True nw Cons show ?thesis by (simp add: sub_phrase_blanks)
    next
      case False
      have l: "length cs < length s" using Cons by simp
      show ?thesis
      proof (cases "is_word c")
        case nw: False
        with False less [OF l] Cons show ?thesis by simp
      next
        case True
        show ?thesis
        proof (cases "match_phrase (c # cs)")
          case None
          then have "\<not> phrase_at (c # cs)" by (simp add: match_phrase_eq split: if_splits)
          then have "\<not> phrase_at (collapse_ws (c # cs))"
            by (simp only: phrase_at_collapse_ws not_False_eq_True)
          then have n: "match_phrase (c # collapse_ws cs) = None"
            using False by (simp add: match_phrase_eq)
          have "length (dropWhile is_word cs) < length s"
            using Cons by (simp add: length_dropWhile_le less_Suc_eq_le)
          from less [OF this]
          have ih: "sub_phrase (collapse_ws (dropWhile is_word cs)) =
              collapse_ws (sub_phrase (dropWhile is_word cs))" .
          have "\<forall>x \<in> set (c # takeWhile is_word cs). \<not> isspace x"
            using True by (auto dest: set_takeWhileD is_word_not_space)
          from collapse_ws_nonspace_prefix [OF this, of "sub_phrase (dropWhile is_word cs)"]
          have "collapse_ws (sub_phrase (c # cs)) =
              (c # takeWhile is_word cs) @ collapse_ws (sub_phrase (dropWhile is_word cs))"
            using None True by simp
          moreover have "sub_phrase (collapse_ws (c # cs)) =
              (c # takeWhile is_word cs) @ sub_phrase (collapse_ws (dropWhile is_word cs))"
            using n True False
            by (simp add: takeWhile_word_collapse_ws dropWhile_word_collapse_ws)
          ultimately show ?thesis using ih Cons by simp
        next
          case (Some rest)
          then have pa: "phrase_at (c # cs)" and r: "rest = after_phrase (c # cs)"
            by (simp_all add: match_phrase_eq split: if_splits)
          from pa have "phrase_at (collapse_ws (c # cs))" by (simp only: phrase_at_collapse_ws)
          moreover have "after_phrase (collapse_ws (c # cs)) = collapse_ws rest"
            unfolding r by (rule phrase_at_collapse_ws)
          ultimately have m: "match_phrase (c # collapse_ws cs) = Some (collapse_ws rest)"
            using False by (simp add: match_phrase_eq)
          have "length rest < length s"
            using match_phrase_Cons_shorter [OF Some True] Cons by simp
          from less [OF this]
          have ih: "sub_phrase (collapse_ws rest) = collapse_ws (sub_phrase rest)" .
          have "sub_phrase (collapse_ws (c # cs)) = ''you are correct'' @ sub_phrase (collapse_ws rest)"
            using m True False by simp
          moreover have "collapse_ws (sub_phrase (c # cs)) =
              ''you are correct'' @ collapse_ws (sub_phrase rest)"
            using Some True collapse_ws_you_are_correct [of "sub_phrase rest"] by simp
          ultimately show ?thesis using ih Cons by simp
        qed
      qed
    qed
  qed
qed

lemma sub_phrase_strip:
  assumes "sub_phrase s = s"
  shows "sub_phrase (strip s) = strip s"
proof -
  have "s = takeWhile isspace s @ lstrip s" by (simp add: lstrip_def)
  moreover have nw: "\<forall>c \<in> set (takeWhile isspace s). \<not> is_word c"
    by (auto dest: set_takeWhileD is_word_not_space)
  ultimately have "sub_phrase s = takeWhile isspace s @ sub_phrase (lstrip s)"
    by (metis sub_phrase_nonword_prefix)
  with assms have "takeWhile isspace s @ sub_phrase (lstrip s) = takeWhile isspace s @ lstrip s"
    by (simp add: lstrip_def)
  then have l: "sub_phrase (lstrip s) = lstrip s" by simp
  from rstrip_decomp [of "lstrip s"] obtain j
    where j: "lstrip s = strip s @ j" "\<forall>c \<in> set j. isspace c" by (auto simp: strip_def)
  then have "\<forall>c \<in> set j. \<not> is_word c" by (auto dest: is_word_not_space)
  from sub_phrase_snoc [OF this, of "strip s"] j(1) l
  have "sub_phrase (strip s) @ j = strip s @ j" by simp
  then show ?thesis by simp
qed

lemma sub_phrase_question_formatting:
  assumes "sub_phrase s = s"
  shows "sub_phrase (question_formatting s) = question_formatting s"
proof -
  from rstrip_chars_decomp [of s "''.!''"] obtain j
    where j: "s = rstrip_chars ''.!'' s @ j" "set j \<subseteq> set ''.!''" by blast
  then have nw: "\<forall>c \<in> set j. \<not> is_word c" using punct_not_word by auto
  from sub_phrase_snoc [OF nw, of "rstrip_chars ''.!'' s"] j(1) assms
  have "sub_phrase (rstrip_chars ''.!'' s) @ j = rstrip_chars ''.!'' s @ j" by simp
  then have a: "sub_phrase (rstrip_chars ''.!'' s) = rstrip_chars ''.!'' s" by simp
  have "sub_phrase (rstrip_chars ''.!'' s @ ''?'') = sub_phrase (rstrip_chars ''.!'' s) @ ''?''"
    by (rule sub_phrase_snoc) (simp add: punct_not_word)
  with a assms show ?thesis by (simp add: question_formatting_def)
qed

lemma sub_phrase_add_clarity:
  assumes "sub_phrase s = s"
  shows "sub_phrase (add_clarity s) = add_clarity s"
  using assms sub_phrase_prefix [of s] by (simp add: add_clarity_def)

lemma phrase_fixed_after_steps:
  assumes "sub_phrase t = t" and "list_all ascii t"
  shows "sub_phrase (capitalize_first (normalize_whitespace (add_context ctx
              (question_formatting (add_clarity t))))) =
         capitalize_first (normalize_whitespace (add_context ctx
              (question_formatting (add_clarity t))))"
proof -
  have c: "add_context ctx x = x" for x
    by (simp add: add_context_def split: option.splits)
  let ?q = "question_formatting (add_clarity t)"
  have q: "sub_phrase ?q = ?q"
    by (intro sub_phrase_question_formatting sub_phrase_add_clarity assms(1))
  then have "sub_phrase (collapse_ws ?q) = collapse_ws ?q"
    by (simp add: sub_phrase_collapse_ws)
  then have "sub_phrase (normalize_whitespace ?q) = normalize_whitespace ?q"
    unfolding normalize_whitespace_def by (rule sub_phrase_strip)
  moreover have "normalize_whitespace ?q = [] \<or> ascii (hd (normalize_whitespace ?q))"
    using ascii_hd [OF ascii_before_capitalize [OF assms(2), of ctx]] by (simp add: c)
  ultimately show ?thesis unfolding c by (rule sub_phrase_capitalize_first)
qed


lemma single_spaced_Cons_nonspace:
  "\<not> isspace c \<Longrightarrow> single_spaced (c # s) = single_spaced s"
  by (cases s) simp_all

lemma single_spaced_Cons_space:
  "takeWhile isspace s = [] \<Longrightarrow> single_spaced (CHR '' '' # s) = single_spaced s"
  by (cases s) (simp_all split: if_splits)

lemma single_spaced_collapse_ws: "single_spaced (collapse_ws s)"
proof (induction s rule: collapse_ws.induct)
  case 1
  then show ?case by simp
next
  case (2 c cs)
  show ?case
  proof (cases "isspace c")
    case True
    have "takeWhile isspace (collapse_ws (dropWhile isspace cs)) = []"
      by (rule collapse_ws_head_nonspace) simp
    with True 2(1) [OF True] show ?thesis by (simp add: single_spaced_Cons_space)
  next
    case False
    with 2(2) [OF False] show ?thesis by (simp add: single_spaced_Cons_nonspace)
  qed
qed

lemma collapse_ws_single_spaced: "single_spaced s \<Longrightarrow> collapse_ws s = s"
  by (induction s rule: single_spaced.induct) auto

lemma single_spaced_tl: "single_spaced (c # s) \<Longrightarrow> single_spaced s"
  by (cases s) simp_all

lemma single_spaced_append_right: "single_spaced (a @ b) \<Longrightarrow> single_spaced b"
  by (induction a) (auto dest: single_spaced_tl)

lemma single_spaced_append_left: "single_spaced (a @ b) \<Longrightarrow> single_spaced a"
proof (induction a rule: single_spaced.induct)
  case 1
  then show ?case by simp
next
  case (2 c)
  then show ?case by (cases b) simp_all
next
  case (3 x y zs)
  then show ?case by simp
qed

lemma single_spaced_strip: "single_spaced s \<Longrightarrow> single_spaced (strip s)"
proof -
  assume s: "single_spaced s"
  have "s = takeWhile isspace s @ lstrip s" by (simp add: lstrip_def)
  with s have l: "single_spaced (lstrip s)" by (metis single_spaced_append_right)
  from rstrip_decomp [of "lstrip s"] obtain j where "lstrip s = strip s @ j"
    by (auto simp: strip_def)
  with l show ?thesis by (metis single_spaced_append_left)
qed

lemma alpha_not_space: "isalpha c \<Longrightarrow> \<not> isspace c"
  by (auto dest: alpha_is_word is_word_not_space)

lemma single_spaced_capitalize_first:
  assumes "single_spaced s" and "s = [] \<or> ascii (hd s)"
  shows "single_spaced (capitalize_first s)"
proof (cases "s \<noteq> [] \<and> \<not> isupper (hd s) \<and> isalpha (hd s)")
  case False
  with assms(1) show ?thesis by (auto simp: capitalize_first_def)
next
  case True
  from True obtain c cs where s: "s = c # cs" "isalpha c" by (cases s) auto
  then have "\<not> isspace c" "\<not> isspace (ascii_upper c)"
    by (simp_all add: alpha_not_space upper_char_alpha)
  moreover have "capitalize_first (c # cs) = ascii_upper c # cs"
    using capitalize_first_ascii [OF assms(2)] True s by simp
  ultimately show ?thesis using assms(1) s
    by (simp add: single_spaced_Cons_nonspace)
qed

lemma stripped_strip_id: "stripped s \<Longrightarrow> strip s = s"
proof -
  assume a: "stripped s"
  then have "dropWhile isspace s = s"
    by (metis stripped_def append_Nil takeWhile_dropWhile_id)
  moreover from a have "dropWhile isspace (rev s) = rev s"
    by (metis stripped_def append_Nil takeWhile_dropWhile_id)
  ultimately show ?thesis by (simp add: strip_def lstrip_def rstrip_def)
qed

lemma takeWhile_Nil_hd: "takeWhile P s = [] \<longleftrightarrow> (s = [] \<or> \<not> P (hd s))"
  by (cases s) simp_all

lemma stripped_strip: "stripped (strip s)"
proof -
  let ?l = "dropWhile isspace s"
  let ?r = "dropWhile isspace (rev ?l)"
  have r: "strip s = rev ?r" by (simp add: strip_def lstrip_def rstrip_def)
  have 1: "takeWhile isspace (rev (rev ?r)) = []" by simp
  have 2: "takeWhile isspace (rev ?r) = []"
  proof (cases "rev ?r")
    case Nil
    show ?thesis unfolding Nil by simp
  next
    case (Cons x xs)
    from rstrip_decomp [of ?l] obtain j where j: "?l = rev ?r @ j" by (auto simp: rstrip_def)
    with Cons have "?l = x # xs @ j" by simp
    then have "\<not> isspace x" by (metis hd_dropWhile list.sel(1) list.distinct(1))
    with Cons show ?thesis by simp
  qed
  from 1 2 show ?thesis unfolding r stripped_def by simp
qed

lemma stripped_capitalize_first:
  assumes "stripped s" and "s = [] \<or> ascii (hd s)"
  shows "stripped (capitalize_first s)"
proof (cases "s \<noteq> [] \<and> \<not> isupper (hd s) \<and> isalpha (hd s)")
  case False
  with assms(1) show ?thesis by (auto simp: capitalize_first_def)
next
  case True
  then obtain c cs where s: "s = c # cs" "isalpha c" by (cases s) auto
  then have n: "\<not> isspace c" "\<not> isspace (ascii_upper c)"
    by (simp_all add: alpha_not_space upper_char_alpha)
  have c: "capitalize_first s = ascii_upper c # cs"
    using capitalize_first_ascii [OF assms(2)] True s by simp
  have "takeWhile isspace (rev (ascii_upper c # cs)) = []"
  proof (cases cs rule: rev_cases)
    case Nil
    with n show ?thesis by simp
  next
    case (snoc ys y)
    with assms(1) s have "\<not> isspace y" by (simp add: stripped_def split: if_splits)
    with snoc show ?thesis by simp
  qed
  with n c show ?thesis by (simp add: stripped_def)
qed

lemma upper_char_isupper:
  assumes "islower c" and "ascii c"
  shows "isupper (ascii_upper c)"
proof -
  let ?n = "of_char c :: nat"
  from assms have n: "97 \<le> ?n" "?n \<le> 122" by (simp_all add: islower_def ascii_def Let_def)
  then have m: "(?n - 32) mod 256 = ?n - 32" by simp
  have "65 \<le> ?n - 32" "?n - 32 \<le> 90" using n by arith+
  then have "isupper (char_of (?n - 32))" using m by (simp add: isupper_def Let_def)
  with n show ?thesis by (simp add: ascii_upper_def)
qed

lemma capitalize_first_idem:
  assumes "s = [] \<or> ascii (hd s)"
  shows "capitalize_first (capitalize_first s) = capitalize_first s"
proof (cases "s \<noteq> [] \<and> \<not> isupper (hd s) \<and> isalpha (hd s)")
  case False
  then show ?thesis by (auto simp: capitalize_first_def)
next
  case True
  then have "islower (hd s)" by (auto simp: isalpha_def)
  with assms True have "isupper (ascii_upper (hd s))" by (auto intro: upper_char_isupper)
  moreover have "capitalize_first s = ascii_upper (hd s) # tl s"
    using capitalize_first_ascii [OF assms] True by simp
  ultimately show ?thesis by (simp add: capitalize_first_def)
qed

lemma fix_typos_fixed:
  assumes "all_words (avoid typo_words) u" and "sub_phrase u = u"
  shows "fix_typos u = u"
  using clean_fix_words [OF assms(1)] assms(2) by (simp add: fix_typos_def)

lemma sub_phrase_fix_typos: "sub_phrase (fix_typos s) = fix_typos s"
  by (simp add: fix_typos_def sub_phrase_idem)

text \<open>
  C9. When the message is made of ASCII characters and the normalizer's result ends in
  \<^verbatim>\<open>?\<close>, normalizing the result again (with any prior messages) returns it unchanged.
\<close>

theorem normalize_twice_ascii_question:
  assumes "list_all ascii m" and "endswith (fine_tune_user_message m ctx) ''?''"
  shows "fine_tune_user_message (fine_tune_user_message m ctx) ctx' = fine_tune_user_message m ctx"
proof -
  let ?r = "fine_tune_user_message m ctx"
  from assms(2) have e: "?r \<noteq> []" "last ?r = CHR ''?''" by (simp_all add: endswith_single)
  have nb: "\<not> (m = [] \<or> strip m = [])"
  proof
    assume b: "m = [] \<or> strip m = []"
    then have r: "?r = m" by (simp add: fine_tune_user_message_def)
    with e b have "strip m = []" by auto
    then have "\<forall>c \<in> set m. isspace c" by (rule strip_empty_all_space)
    with e r have "isspace (CHR ''?'')" by (metis last_in_set)
    then show False by (simp add: qmark_props)
  qed
  define t where "t = fix_typos (strip m)"
  define u0 where "u0 = normalize_whitespace (add_context ctx
      (question_formatting (add_clarity t)))"
  define u where "u = capitalize_first u0"
  from nb have r: "?r = sentence_ending u"
    by (simp add: fine_tune_user_message_def u_def u0_def t_def)
  have ru: "?r = u"
  proof (rule ccontr)
    assume "?r \<noteq> u"
    with r have "?r = u @ ''.''" by (simp add: sentence_ending_def split: if_splits)
    with e show False by simp
  qed
  have at: "list_all ascii t"
    unfolding t_def by (intro ascii_fix_typos ascii_strip assms(1))
  have h: "u0 = [] \<or> ascii (hd u0)"
    unfolding u0_def by (rule ascii_hd [OF ascii_before_capitalize [OF at]])
  have ct: "all_words (avoid typo_words) t" unfolding t_def by (rule fix_typos_clean)
  have pt: "sub_phrase t = t" unfolding t_def by (rule sub_phrase_fix_typos)
  have clean: "all_words (avoid typo_words) u"
    unfolding u_def u0_def by (rule clean_after_steps [OF ct at])
  have phr: "sub_phrase u = u"
    unfolding u_def u0_def by (rule phrase_fixed_after_steps [OF pt at])
  have ft: "fix_typos u = u" using clean phr by (rule fix_typos_fixed)
  have st0: "stripped u0" unfolding u0_def normalize_whitespace_def by (rule stripped_strip)
  have st: "stripped u" unfolding u_def by (rule stripped_capitalize_first [OF st0 h])
  have ss0: "single_spaced u0"
    unfolding u0_def normalize_whitespace_def
    by (intro single_spaced_strip single_spaced_collapse_ws)
  have ss: "single_spaced u" unfolding u_def by (rule single_spaced_capitalize_first [OF ss0 h])
  have cap: "capitalize_first u = u" unfolding u_def by (rule capitalize_first_idem [OF h])
  from e ru have ue: "u \<noteq> []" "last u = CHR ''?''" "endswith u ''?''"
    by (simp_all add: endswith_single)
  have s1: "strip u = u" using st by (rule stripped_strip_id)
  have s2: "add_clarity u = u" using ue(3) by (simp add: add_clarity_def)
  have s3: "question_formatting u = u" using ue(3) by (simp add: question_formatting_def)
  have s4: "add_context ctx' u = u" by (simp add: add_context_def split: option.splits)
  have s5: "normalize_whitespace u = u"
    using ss s1 by (simp add: normalize_whitespace_def collapse_ws_single_spaced)
  have s6: "sentence_ending u = u" using ue by (simp add: sentence_ending_def qmark_props)
  have "fine_tune_user_message u ctx' = u"
    using ue(1) s1 ft s2 s3 s4 s5 cap s6 by (simp add: fine_tune_user_message_def)
  with ru show ?thesis by simp
qed

theorem normalize_twice_ascii_question_witness:
  "list_all ascii ''whats teh time'' \<and>
   endswith (fine_tune_user_message ''whats teh time'' None) ''?'' \<and>
   fine_tune_user_message ''whats teh time'' None = ''Whats the time?'' \<and>
   fine_tune_user_message ''Whats the time?'' None = ''Whats the time?''"
proof -
  have a: "fine_tune_user_message ''whats teh time'' None = ''Whats the time?''" by code_simp
  have b: "endswith ''Whats the time?'' ''?''" by code_simp
  have c: "list_all ascii ''whats teh time''" by code_simp
  from a b have "endswith (fine_tune_user_message ''whats teh time'' None) ''?''" by simp
  from normalize_twice_ascii_question [OF c this, of None] a b c show ?thesis by simp
qed

text \<open>
  The restriction to ASCII messages is needed. The message that is U+01F0 followed by
  \<^verbatim>\<open>teh ok?\<close> is one word and a second one: step 1 finds no typo, and step 6 writes
  the uppercase form of its first letter, the letter \<^verbatim>\<open>J\<close> and the mark U+030C. The mark is
  not a word character, so in the result \<^verbatim>\<open>teh\<close> is a word of its own, and the second
  normalization rewrites it.
\<close>

theorem normalize_twice_changes_after_wide_uppercase:
  "code_point (CHR 0x80) = 0x1F0 \<and> code_point (CHR 0x81) = 0x30C \<and>
   fine_tune_user_message (CHR 0x80 # ''teh ok?'') None = CHR ''J'' # CHR 0x81 # ''teh ok?'' \<and>
   endswith (fine_tune_user_message (CHR 0x80 # ''teh ok?'') None) ''?'' \<and>
   fine_tune_user_message (fine_tune_user_message (CHR 0x80 # ''teh ok?'') None) None =
     CHR ''J'' # CHR 0x81 # ''the ok?'' \<and>
   fine_tune_user_message (fine_tune_user_message (CHR 0x80 # ''teh ok?'') None) None \<noteq>
     fine_tune_user_message (CHR 0x80 # ''teh ok?'') None"
  by code_simp


end
